theory Spec2Isabelle
  imports Main "HOL-Library.Word"
begin

section \<open>The machine the container runs on\<close>

text \<open>
  A shallow embedding of \<^verbatim>\<open>vector.h\<close>: a growable array over raw storage from
  \<^verbatim>\<open>operator new\<close>, with elements built by placement new and torn down by explicit
  destructor calls.

  Integers. \<^verbatim>\<open>size_t\<close> is a 64-bit word (arithmetic wraps), \<^verbatim>\<open>int\<close> is 32 bits wide
  and signed (the LP64 data model). \<^verbatim>\<open>destroy_all\<close> takes its count as an \<^verbatim>\<open>int\<close>
  while every caller passes a \<^verbatim>\<open>size_t\<close>; that conversion is \<open>to_int\<close>.

  Memory. Every successful \<^verbatim>\<open>operator new\<close> hands out a block with an address of its
  own (never 0). A block is a list of slots, one per \<^verbatim>\<open>sizeof(T)\<close> bytes requested;
  a slot is \<open>None\<close> while it is raw storage and \<open>Some x\<close> while a live object of
  value \<open>x\<close> sits in it. A pointer is a block address and a slot offset; the null
  pointer is block 0, offset 0.

  Failure. An exception is the outcome \<open>Throw\<close>; a step the C++ standard leaves
  undefined (a read of raw storage, placement new outside a block or on a live slot, a
  destructor call on raw storage, a free of something never allocated, a difference of
  pointers into two blocks) is the outcome \<open>Undefined\<close>. Which allocation, which copy
  construction and which element exchange fails is fixed by three schedules over the
  running count of such calls, so every pattern of failures is some schedule.
\<close>

type_synonym size_t = "64 word"

definition to_int :: "size_t \<Rightarrow> int" where
  "to_int n = sint (ucast n :: 32 word)"

datatype failure = AllocationFailure | ElementOperationFailure

datatype 'r outcome = Normal 'r | Throw failure | Undefined

datatype ptr = Ptr (blk: nat) (off: int)

definition nullptr :: ptr where
  "nullptr = Ptr 0 0"

definition ptr_add :: "ptr \<Rightarrow> int \<Rightarrow> ptr" where
  "ptr_add p n = Ptr (blk p) (off p + n)"

definition ptr_diff :: "ptr \<Rightarrow> ptr \<Rightarrow> int option" where
  "ptr_diff p q = (if blk p = blk q then Some (off p - off q) else None)"

record 'a world =
  blocks :: "nat \<Rightarrow> 'a option list option"
  allocs :: nat
  copies :: nat
  swaps :: nat
  live :: int
  sizeof_T :: size_t
  new_fails :: "nat \<Rightarrow> bool"
  copy_fails :: "nat \<Rightarrow> bool"
  swap_fails :: "nat \<Rightarrow> bool"

text \<open>
  \<open>slot w p\<close> is what the pointer \<open>p\<close> points at: \<open>None\<close> when it points at no
  storage, \<open>Some None\<close> at raw storage, \<open>Some (Some x)\<close> at a live object.
\<close>

definition slot :: "'a world \<Rightarrow> ptr \<Rightarrow> 'a option option" where
  "slot w p =
     (if blk p = 0 \<or> off p < 0 then None
      else case blocks w (blk p) of
             None \<Rightarrow> None
           | Some b \<Rightarrow> if nat (off p) < length b then Some (b ! nat (off p)) else None)"

definition set_slot :: "ptr \<Rightarrow> 'a option \<Rightarrow> 'a world \<Rightarrow> 'a world" where
  "set_slot p x w =
     (if slot w p = None then w
      else case blocks w (blk p) of
             None \<Rightarrow> w
           | Some b \<Rightarrow> w\<lparr>blocks := (blocks w)(blk p \<mapsto> b[nat (off p) := x])\<rparr>)"

text \<open>
  \<^verbatim>\<open>operator new(bytes)\<close>: throws when the schedule says so, and otherwise returns a
  block of \<open>bytes div sizeof(T)\<close> raw slots at the next unused address.
  \<^verbatim>\<open>operator delete(p)\<close>: nothing for the null pointer, else \<open>p\<close> must be the start
  of a block, which goes away.
\<close>

definition operator_new :: "size_t \<Rightarrow> 'a world \<Rightarrow> ptr outcome \<times> 'a world" where
  "operator_new bytes w =
     (if new_fails w (allocs w)
      then (Throw AllocationFailure, w\<lparr>allocs := Suc (allocs w)\<rparr>)
      else (Normal (Ptr (Suc (allocs w)) 0),
            w\<lparr>allocs := Suc (allocs w),
              blocks := (blocks w)(Suc (allocs w) \<mapsto>
                          replicate (unat bytes div unat (sizeof_T w)) None)\<rparr>))"

definition operator_delete :: "ptr \<Rightarrow> 'a world \<Rightarrow> unit outcome \<times> 'a world" where
  "operator_delete p w =
     (if p = nullptr then (Normal (), w)
      else if blk p = 0 \<or> off p < 0 \<or> 0 < off p \<or> blocks w (blk p) = None
      then (Undefined, w)
      else (Normal (), w\<lparr>blocks := (blocks w)(blk p := None)\<rparr>))"

text \<open>
  The element type \<^verbatim>\<open>T\<close>. Its copy constructor \<^verbatim>\<open>T(x)\<close> throws when the schedule says
  so and otherwise makes one more live object of the same value. \<open>construct_at\<close> is
  \<^verbatim>\<open>new (p) T(x)\<close>, \<open>destroy_at\<close> is \<^verbatim>\<open>p->~T()\<close> (a destructor never throws),
  \<open>destroy_local\<close> ends the life of a \<^verbatim>\<open>T\<close> on the stack, and \<open>std_swap\<close> is
  \<^verbatim>\<open>std::swap(*p, *q)\<close>, which either throws, leaving both objects as they were, or
  exchanges the two values.
\<close>

definition copy_T :: "'a \<Rightarrow> 'a world \<Rightarrow> 'a outcome \<times> 'a world" where
  "copy_T x w =
     (if copy_fails w (copies w)
      then (Throw ElementOperationFailure, w\<lparr>copies := Suc (copies w)\<rparr>)
      else (Normal x, w\<lparr>copies := Suc (copies w), live := live w + 1\<rparr>))"

definition construct_at :: "ptr \<Rightarrow> 'a \<Rightarrow> 'a world \<Rightarrow> unit outcome \<times> 'a world" where
  "construct_at p x w =
     (case slot w p of
        Some None \<Rightarrow>
          (case copy_T x w of
             (Normal y, w') \<Rightarrow> (Normal (), set_slot p (Some y) w')
           | (Throw e, w') \<Rightarrow> (Throw e, w')
           | (Undefined, w') \<Rightarrow> (Undefined, w'))
      | _ \<Rightarrow> (Undefined, w))"

definition destroy_at :: "ptr \<Rightarrow> 'a world \<Rightarrow> unit outcome \<times> 'a world" where
  "destroy_at p w =
     (case slot w p of
        Some (Some x) \<Rightarrow> (Normal (), (set_slot p None w)\<lparr>live := live w - 1\<rparr>)
      | _ \<Rightarrow> (Undefined, w))"

definition destroy_local :: "'a world \<Rightarrow> 'a world" where
  "destroy_local w = w\<lparr>live := live w - 1\<rparr>"

definition std_swap :: "ptr \<Rightarrow> ptr \<Rightarrow> 'a world \<Rightarrow> unit outcome \<times> 'a world" where
  "std_swap p q w =
     (case slot w p of
        Some (Some x) \<Rightarrow>
          (case slot w q of
             Some (Some y) \<Rightarrow>
               (if swap_fails w (swaps w)
                then (Throw ElementOperationFailure, w\<lparr>swaps := Suc (swaps w)\<rparr>)
                else (Normal (),
                      set_slot q (Some x) (set_slot p (Some y) (w\<lparr>swaps := Suc (swaps w)\<rparr>))))
           | _ \<Rightarrow> (Undefined, w))
      | _ \<Rightarrow> (Undefined, w))"

text \<open>
  Stack unwinding: a local's destructor runs while an outcome is pending. A destructor
  that does not return normally ends the program.
\<close>

definition unwind :: "'r outcome \<Rightarrow> unit outcome \<times> 'a world \<Rightarrow> 'r outcome \<times> 'a world" where
  "unwind pending cleanup =
     (case cleanup of
        (Normal u, w) \<Rightarrow> (pending, w)
      | (Throw e, w) \<Rightarrow> (Undefined, w)
      | (Undefined, w) \<Rightarrow> (Undefined, w))"

section \<open>The element lifecycle helpers\<close>

text \<open>
  \<^verbatim>\<open>
  template <typename T>
  void destroy_all(T* vec, int size) {
      for (int i = 0; i < size; i++) {
          vec[i].~T();
      }
  }
  \<close>
  The counter runs from 0 up to \<open>sz\<close>, which is at most \<open>2^31 - 1\<close>, so it never
  overflows and is a plain integer here.
\<close>

function destroy_all_loop :: "ptr \<Rightarrow> int \<Rightarrow> int \<Rightarrow> 'a world \<Rightarrow> unit outcome \<times> 'a world" where
  "destroy_all_loop vec sz i w =
     (if i < sz then
        (case destroy_at (ptr_add vec i) w of
           (Normal u, w') \<Rightarrow> destroy_all_loop vec sz (i + 1) w'
         | (Throw e, w') \<Rightarrow> (Throw e, w')
         | (Undefined, w') \<Rightarrow> (Undefined, w'))
      else (Normal (), w))"
  by pat_completeness auto
termination
  by (relation "measure (\<lambda>(vec, sz, i, w). nat (sz - i))") auto

definition destroy_all :: "ptr \<Rightarrow> int \<Rightarrow> 'a world \<Rightarrow> unit outcome \<times> 'a world" where
  "destroy_all vec sz w = destroy_all_loop vec sz 0 w"

text \<open>
  \<^verbatim>\<open>
  template <typename T>
  void copy_construct_all(T* dst, T const* src, size_t size) {
      size_t i = 0;
      try {
          for (; i < size; i++) {
              new (dst + i) T(src[i]);
          }
      } catch (...) {
          destroy_all(dst, i);
          throw;
      }
  }
  \<close>
  The loop returns its counter along with the outcome, since the handler reads it.
\<close>

function copy_construct_loop ::
  "ptr \<Rightarrow> ptr \<Rightarrow> size_t \<Rightarrow> size_t \<Rightarrow> 'a world \<Rightarrow> unit outcome \<times> size_t \<times> 'a world" where
  "copy_construct_loop dst src sz i w =
     (if i < sz then
        (case slot w (ptr_add src (uint i)) of
           Some (Some x) \<Rightarrow>
             (case construct_at (ptr_add dst (uint i)) x w of
                (Normal u, w') \<Rightarrow> copy_construct_loop dst src sz (i + 1) w'
              | (Throw e, w') \<Rightarrow> (Throw e, i, w')
              | (Undefined, w') \<Rightarrow> (Undefined, i, w'))
         | _ \<Rightarrow> (Undefined, i, w))
      else (Normal (), i, w))"
  by pat_completeness auto
termination
proof (relation "measure (\<lambda>(dst, src, sz, i, w). unat sz - unat i)")
  show "wf (measure (\<lambda>(dst, src, sz, i, w). unat sz - unat i))"
    by simp
next
  fix dst src :: ptr and sz i :: size_t and w w' :: "'a world"
  assume "i < sz"
  then have "unat sz - unat (i + 1) < unat sz - unat i"
    by unat_arith
  then show "((dst, src, sz, i + 1, w'), (dst, src, sz, i, w))
      \<in> measure (\<lambda>(dst, src, sz, i, w). unat sz - unat i)"
    by simp
qed

definition copy_construct_all :: "ptr \<Rightarrow> ptr \<Rightarrow> size_t \<Rightarrow> 'a world \<Rightarrow> unit outcome \<times> 'a world" where
  "copy_construct_all dst src sz w =
     (case copy_construct_loop dst src sz 0 w of
        (Normal u, i, w') \<Rightarrow> (Normal (), w')
      | (Throw e, i, w') \<Rightarrow> unwind (Throw e) (destroy_all dst (to_int i) w')
      | (Undefined, i, w') \<Rightarrow> (Undefined, w'))"

section \<open>The vector\<close>

text \<open>
  \<^verbatim>\<open>
  private:
      T* data_;
      size_t size_;
      size_t capacity_;
  \<close>
  A member function takes the object it is called on as \<open>this\<close> and returns its new
  state along with the outcome and the new memory. An iterator is a \<^verbatim>\<open>T*\<close>.
\<close>

record vector =
  data_m :: ptr
  size_m :: size_t
  capacity_m :: size_t

text \<open>
  \<^verbatim>\<open>
  vector<T>::vector() { data_ = nullptr; size_ = 0; capacity_ = 0; }
  \<close>
\<close>

definition vector_ctor :: vector where
  "vector_ctor = \<lparr>data_m = nullptr, size_m = 0, capacity_m = 0\<rparr>"

text \<open>
  \<^verbatim>\<open>
  vector<T>::vector(vector<T> const& other) {
      T* ptr = static_cast<T*>(operator new(other.capacity_ * sizeof(T)));
      try {
          copy_construct_all(ptr, other.data_, other.size_);
      } catch (...) {
          operator delete (ptr);
          throw;
      }
      data_ = ptr;
      size_ = other.size_;
      capacity_ = other.capacity_;
  }
  \<close>
\<close>

definition vector_copy_ctor :: "vector \<Rightarrow> 'a world \<Rightarrow> vector outcome \<times> 'a world" where
  "vector_copy_ctor other w =
     (case operator_new (capacity_m other * sizeof_T w) w of
        (Normal p, w1) \<Rightarrow>
          (case copy_construct_all p (data_m other) (size_m other) w1 of
             (Normal u, w2) \<Rightarrow>
               (Normal \<lparr>data_m = p, size_m = size_m other, capacity_m = capacity_m other\<rparr>, w2)
           | (Throw e, w2) \<Rightarrow> unwind (Throw e) (operator_delete p w2)
           | (Undefined, w2) \<Rightarrow> (Undefined, w2))
      | (Throw e, w1) \<Rightarrow> (Throw e, w1)
      | (Undefined, w1) \<Rightarrow> (Undefined, w1))"

text \<open>
  \<^verbatim>\<open>
  vector<T>::~vector() {
      destroy_all(data_, size_);
      operator delete(data_);
  }
  \<close>
\<close>

definition vector_dtor :: "vector \<Rightarrow> 'a world \<Rightarrow> unit outcome \<times> 'a world" where
  "vector_dtor this w =
     (case destroy_all (data_m this) (to_int (size_m this)) w of
        (Normal u, w1) \<Rightarrow> operator_delete (data_m this) w1
      | (Throw e, w1) \<Rightarrow> (Throw e, w1)
      | (Undefined, w1) \<Rightarrow> (Undefined, w1))"

text \<open>
  The accessors. \<^verbatim>\<open>operator[]\<close>, \<^verbatim>\<open>front\<close> and \<^verbatim>\<open>back\<close> return references, here the
  pointers \<open>data_ + i\<close>, \<open>data_\<close> and \<open>data_ + (size_ - 1)\<close>.
  \<^verbatim>\<open>
  T* vector<T>::data() {
      if (capacity_ == 0) {
          return nullptr;
      }
      return data_;
  }
  T const* vector<T>::data() const { return data_; }
  size_t vector<T>::size() const { return size_; }
  bool vector<T>::empty() const { return size_ == 0; }
  size_t vector<T>::capacity() const { return capacity_; }
  iterator vector<T>::begin() { return data_; }
  iterator vector<T>::end() { return data_ + size_; }
  \<close>
\<close>

definition operator_index :: "vector \<Rightarrow> size_t \<Rightarrow> ptr" where
  "operator_index this i = ptr_add (data_m this) (uint i)"

definition data :: "vector \<Rightarrow> ptr" where
  "data this = (if capacity_m this = 0 then nullptr else data_m this)"

definition data_const :: "vector \<Rightarrow> ptr" where
  "data_const this = data_m this"

definition size_vec :: "vector \<Rightarrow> size_t" where
  "size_vec this = size_m this"

definition front :: "vector \<Rightarrow> ptr" where
  "front this = data_m this"

definition back_vec :: "vector \<Rightarrow> ptr" where
  "back_vec this = ptr_add (data_m this) (uint (size_m this - 1))"

definition empty_vec :: "vector \<Rightarrow> bool" where
  "empty_vec this = (size_m this = 0)"

definition capacity :: "vector \<Rightarrow> size_t" where
  "capacity this = capacity_m this"

definition begin_vec :: "vector \<Rightarrow> ptr" where
  "begin_vec this = data_m this"

definition end_vec :: "vector \<Rightarrow> ptr" where
  "end_vec this = ptr_add (data_m this) (uint (size_m this))"

text \<open>
  \<^verbatim>\<open>
  void vector<T>::swap(vector& other) {
      std::swap(data_, other.data_);
      std::swap(size_, other.size_);
      std::swap(capacity_, other.capacity_);
  }
  \<close>
  The result is the pair of \<open>this\<close> and \<open>other\<close> after the call.
\<close>

definition swap :: "vector \<Rightarrow> vector \<Rightarrow> vector \<times> vector" where
  "swap this other =
     (this\<lparr>data_m := data_m other, size_m := size_m other, capacity_m := capacity_m other\<rparr>,
      other\<lparr>data_m := data_m this, size_m := size_m this, capacity_m := capacity_m this\<rparr>)"

text \<open>
  \<^verbatim>\<open>
  size_t vector<T>::increase_capacity() const {
      if (capacity_ == 0) {
          return 1;
      } else {
          return capacity_ * 2;
      }
  }
  \<close>
\<close>

definition increase_capacity :: "vector \<Rightarrow> size_t" where
  "increase_capacity this = (if capacity_m this = 0 then 1 else capacity_m this * 2)"

text \<open>
  \<^verbatim>\<open>
  void vector<T>::new_buffer(size_t new_capacity) {
      vector<T> tmp;
      if (new_capacity != 0) {
          tmp.data_ = static_cast<T *>(operator new(new_capacity * sizeof(T)));
          copy_construct_all(tmp.data_, data_, size_);
          tmp.capacity_ = new_capacity;
          tmp.size_ = size_;
      }
      swap(tmp);
  }
  \<close>
  The local \<open>tmp\<close> is destroyed on every way out: after the swap it holds the old
  buffer, and while an exception passes it holds the new block and no elements.
\<close>

definition new_buffer :: "size_t \<Rightarrow> vector \<Rightarrow> 'a world \<Rightarrow> unit outcome \<times> vector \<times> 'a world" where
  "new_buffer new_capacity this w =
     (let tmp = vector_ctor in
      if new_capacity \<noteq> 0 then
        (case operator_new (new_capacity * sizeof_T w) w of
           (Normal p, w1) \<Rightarrow>
             (let tmp1 = tmp\<lparr>data_m := p\<rparr> in
              case copy_construct_all (data_m tmp1) (data_m this) (size_m this) w1 of
                (Normal u, w2) \<Rightarrow>
                  (let tmp2 = tmp1\<lparr>capacity_m := new_capacity, size_m := size_m this\<rparr>;
                       (this', tmp') = swap this tmp2;
                       (r, w3) = vector_dtor tmp' w2
                   in (r, this', w3))
              | (Throw e, w2) \<Rightarrow>
                  (let (r, w3) = unwind (Throw e) (vector_dtor tmp1 w2) in (r, this, w3))
              | (Undefined, w2) \<Rightarrow> (Undefined, this, w2))
         | (Throw e, w1) \<Rightarrow>
             (let (r, w2) = unwind (Throw e) (vector_dtor tmp w1) in (r, this, w2))
         | (Undefined, w1) \<Rightarrow> (Undefined, this, w1))
      else
        (let (this', tmp') = swap this tmp;
             (r, w1) = vector_dtor tmp' w
         in (r, this', w1)))"

text \<open>
  \<^verbatim>\<open>
  void vector<T>::push_back_realloc(T const& value) {
      T tmp(value);
      new_buffer(increase_capacity());
      new(data_ + size_) T(tmp);
      ++size_;
  }

  void vector<T>::push_back(T const& value) {
      if (size_ != capacity_) {
          new (data_ + size_) T(value);
          ++size_;
      } else {
          push_back_realloc(value);
      }
  }

  void vector<T>::pop_back() {
      data_[size_ - 1].~T();
      --size_;
  }
  \<close>
  The local copy \<open>tmp\<close> of the pushed value dies on every way out of
  \<open>push_back_realloc\<close>.
\<close>

definition push_back_realloc :: "'a \<Rightarrow> vector \<Rightarrow> 'a world \<Rightarrow> unit outcome \<times> vector \<times> 'a world" where
  "push_back_realloc val this w =
     (case copy_T val w of
        (Normal tmp, w1) \<Rightarrow>
          (case new_buffer (increase_capacity this) this w1 of
             (Normal u, this1, w2) \<Rightarrow>
               (case construct_at (ptr_add (data_m this1) (uint (size_m this1))) tmp w2 of
                  (Normal u', w3) \<Rightarrow>
                    (Normal (), this1\<lparr>size_m := size_m this1 + 1\<rparr>, destroy_local w3)
                | (Throw e, w3) \<Rightarrow> (Throw e, this1, destroy_local w3)
                | (Undefined, w3) \<Rightarrow> (Undefined, this1, w3))
           | (Throw e, this1, w2) \<Rightarrow> (Throw e, this1, destroy_local w2)
           | (Undefined, this1, w2) \<Rightarrow> (Undefined, this1, w2))
      | (Throw e, w1) \<Rightarrow> (Throw e, this, w1)
      | (Undefined, w1) \<Rightarrow> (Undefined, this, w1))"

definition push_back :: "'a \<Rightarrow> vector \<Rightarrow> 'a world \<Rightarrow> unit outcome \<times> vector \<times> 'a world" where
  "push_back val this w =
     (if size_m this \<noteq> capacity_m this then
        (case construct_at (ptr_add (data_m this) (uint (size_m this))) val w of
           (Normal u, w1) \<Rightarrow> (Normal (), this\<lparr>size_m := size_m this + 1\<rparr>, w1)
         | (Throw e, w1) \<Rightarrow> (Throw e, this, w1)
         | (Undefined, w1) \<Rightarrow> (Undefined, this, w1))
      else push_back_realloc val this w)"

definition pop_back :: "vector \<Rightarrow> 'a world \<Rightarrow> unit outcome \<times> vector \<times> 'a world" where
  "pop_back this w =
     (case destroy_at (ptr_add (data_m this) (uint (size_m this - 1))) w of
        (Normal u, w1) \<Rightarrow> (Normal (), this\<lparr>size_m := size_m this - 1\<rparr>, w1)
      | (Throw e, w1) \<Rightarrow> (Throw e, this, w1)
      | (Undefined, w1) \<Rightarrow> (Undefined, this, w1))"

text \<open>
  \<^verbatim>\<open>
  void vector<T>::reserve(size_t new_capacity) {
      if (capacity_ >= new_capacity) {
          return;
      }
      new_buffer(new_capacity);
  }

  void vector<T>::shrink_to_fit() {
      if (size_ < capacity_) {
          new_buffer(size_);
      }
  }

  void vector<T>::clear() {
      destroy_all(data_, size_);
      size_ = 0;
  }
  \<close>
\<close>

definition reserve :: "size_t \<Rightarrow> vector \<Rightarrow> 'a world \<Rightarrow> unit outcome \<times> vector \<times> 'a world" where
  "reserve new_capacity this w =
     (if capacity_m this \<ge> new_capacity then (Normal (), this, w)
      else new_buffer new_capacity this w)"

definition shrink_to_fit :: "vector \<Rightarrow> 'a world \<Rightarrow> unit outcome \<times> vector \<times> 'a world" where
  "shrink_to_fit this w =
     (if size_m this < capacity_m this then new_buffer (size_m this) this w
      else (Normal (), this, w))"

definition clear :: "vector \<Rightarrow> 'a world \<Rightarrow> unit outcome \<times> vector \<times> 'a world" where
  "clear this w =
     (case destroy_all (data_m this) (to_int (size_m this)) w of
        (Normal u, w1) \<Rightarrow> (Normal (), this\<lparr>size_m := 0\<rparr>, w1)
      | (Throw e, w1) \<Rightarrow> (Throw e, this, w1)
      | (Undefined, w1) \<Rightarrow> (Undefined, this, w1))"

text \<open>
  \<^verbatim>\<open>
  iterator vector<T>::insert(const_iterator pos, T const& val) {
      size_t ind = pos - begin();
      push_back(val);
      for (size_t i = size_ - 1; i != ind; i--) {
          std::swap(data_[i], data_[i - 1]);
      }
      return begin() + ind;
  }
  \<close>
\<close>

function insert_loop :: "size_t \<Rightarrow> size_t \<Rightarrow> vector \<Rightarrow> 'a world \<Rightarrow> unit outcome \<times> 'a world" where
  "insert_loop ind i this w =
     (if i \<noteq> ind then
        (case std_swap (ptr_add (data_m this) (uint i)) (ptr_add (data_m this) (uint (i - 1))) w of
           (Normal u, w1) \<Rightarrow> insert_loop ind (i - 1) this w1
         | (Throw e, w1) \<Rightarrow> (Throw e, w1)
         | (Undefined, w1) \<Rightarrow> (Undefined, w1))
      else (Normal (), w))"
  by pat_completeness auto
termination
  by (relation "measure (\<lambda>(ind, i, this, w). unat (i - ind))")
     (auto simp: diff_right_commute measure_unat)

definition insert_vec :: "ptr \<Rightarrow> 'a \<Rightarrow> vector \<Rightarrow> 'a world \<Rightarrow> ptr outcome \<times> vector \<times> 'a world" where
  "insert_vec pos val this w =
     (case ptr_diff pos (begin_vec this) of
        None \<Rightarrow> (Undefined, this, w)
      | Some d \<Rightarrow>
          (let ind = (word_of_int d :: size_t) in
           case push_back val this w of
             (Normal u, this1, w1) \<Rightarrow>
               (case insert_loop ind (size_m this1 - 1) this1 w1 of
                  (Normal u', w2) \<Rightarrow> (Normal (ptr_add (begin_vec this1) (uint ind)), this1, w2)
                | (Throw e, w2) \<Rightarrow> (Throw e, this1, w2)
                | (Undefined, w2) \<Rightarrow> (Undefined, this1, w2))
           | (Throw e, this1, w1) \<Rightarrow> (Throw e, this1, w1)
           | (Undefined, this1, w1) \<Rightarrow> (Undefined, this1, w1)))"

text \<open>
  \<^verbatim>\<open>
  iterator vector<T>::erase(const_iterator pos) {
      iterator result = const_cast<iterator>(pos) + 1;
      for (size_t i = pos - begin(); i + 1 != size_; i++) {
          std::swap(data_[i], data_[i + 1]);
      }
      pop_back();
      return result;
  }
  \<close>
\<close>

function erase_loop :: "size_t \<Rightarrow> vector \<Rightarrow> 'a world \<Rightarrow> unit outcome \<times> 'a world" where
  "erase_loop i this w =
     (if i + 1 \<noteq> size_m this then
        (case std_swap (ptr_add (data_m this) (uint i)) (ptr_add (data_m this) (uint (i + 1))) w of
           (Normal u, w1) \<Rightarrow> erase_loop (i + 1) this w1
         | (Throw e, w1) \<Rightarrow> (Throw e, w1)
         | (Undefined, w1) \<Rightarrow> (Undefined, w1))
      else (Normal (), w))"
  by pat_completeness auto
termination
proof (relation "measure (\<lambda>(i, this, w). unat (size_m this - (i + 1)))")
  show "wf (measure (\<lambda>(i, this, w). unat (size_m this - (i + 1))))"
    by simp
next
  fix i :: size_t and this :: vector and w w1 :: "'a world"
  assume "i + 1 \<noteq> size_m this"
  then have "size_m this - (i + 1) \<noteq> 0"
    by simp
  then have "unat (size_m this - (i + 1) - 1) < unat (size_m this - (i + 1))"
    by (rule measure_unat)
  then show "((i + 1, this, w1), (i, this, w)) \<in> measure (\<lambda>(i, this, w). unat (size_m this - (i + 1)))"
    by (simp add: diff_diff_eq)
qed

definition erase :: "ptr \<Rightarrow> vector \<Rightarrow> 'a world \<Rightarrow> ptr outcome \<times> vector \<times> 'a world" where
  "erase pos this w =
     (let result = ptr_add pos 1 in
      case ptr_diff pos (begin_vec this) of
        None \<Rightarrow> (Undefined, this, w)
      | Some d \<Rightarrow>
          (case erase_loop (word_of_int d) this w of
             (Normal u, w1) \<Rightarrow>
               (case pop_back this w1 of
                  (Normal u', this1, w2) \<Rightarrow> (Normal result, this1, w2)
                | (Throw e, this1, w2) \<Rightarrow> (Throw e, this1, w2)
                | (Undefined, this1, w2) \<Rightarrow> (Undefined, this1, w2))
           | (Throw e, w1) \<Rightarrow> (Throw e, this, w1)
           | (Undefined, w1) \<Rightarrow> (Undefined, this, w1)))"

text \<open>
  \<^verbatim>\<open>
  iterator vector<T>::erase(const_iterator first, const_iterator last) {
      for (auto i = const_cast<iterator>(first), j = const_cast<iterator>(last); j != end(); i++, j++) {
          std::swap(*i, *j);
      }
      for (size_t i = 0; i < size_t(last - first); i++) {
          pop_back();
      }
      return begin() + (last - first);
  }
  \<close>
  The first loop runs on pointers. It ends because an exchange that returns normally had
  a live object under \<open>j\<close>, so \<open>j\<close> was inside its block, whose length no exchange
  changes: \<open>room w j\<close>, the slots from \<open>j\<close> to the end of its block, shrinks.
\<close>

definition room :: "'a world \<Rightarrow> ptr \<Rightarrow> nat" where
  "room w p = (case blocks w (blk p) of None \<Rightarrow> 0 | Some b \<Rightarrow> nat (int (length b) - off p))"

function erase_range_loop :: "ptr \<Rightarrow> ptr \<Rightarrow> vector \<Rightarrow> 'a world \<Rightarrow> unit outcome \<times> 'a world" where
  "erase_range_loop i j this w =
     (if j \<noteq> end_vec this then
        (case std_swap i j w of
           (Normal u, w1) \<Rightarrow> erase_range_loop (ptr_add i 1) (ptr_add j 1) this w1
         | (Throw e, w1) \<Rightarrow> (Throw e, w1)
         | (Undefined, w1) \<Rightarrow> (Undefined, w1))
      else (Normal (), w))"
  by pat_completeness auto
termination
proof (relation "measure (\<lambda>(i, j, this, w). room w j)")
  show "wf (measure (\<lambda>(i, j, this, w). room w j))"
    by simp
next
  fix i j :: ptr and this :: vector and w w1 :: "'a world" and x :: "unit outcome" and u
  assume "j \<noteq> end_vec this" and "(x, w1) = std_swap i j w" and "x = Normal u"
  then have "std_swap i j w = (Normal u, w1)"
    by simp
  then have "\<exists>b. blocks w (blk j) = Some b \<and> 0 \<le> off j \<and> nat (off j) < length b
      \<and> (\<exists>b'. blocks w1 (blk j) = Some b' \<and> length b' = length b)"
    by (auto simp: std_swap_def slot_def set_slot_def split: option.splits if_splits)
  then have "room w1 (ptr_add j 1) < room w j"
    by (auto simp: room_def ptr_add_def)
  then show "((ptr_add i 1, ptr_add j 1, this, w1), (i, j, this, w))
      \<in> measure (\<lambda>(i, j, this, w). room w j)"
    by simp
qed

function erase_range_pops ::
  "size_t \<Rightarrow> size_t \<Rightarrow> vector \<Rightarrow> 'a world \<Rightarrow> unit outcome \<times> vector \<times> 'a world" where
  "erase_range_pops i n this w =
     (if i < n then
        (case pop_back this w of
           (Normal u, this1, w1) \<Rightarrow> erase_range_pops (i + 1) n this1 w1
         | (Throw e, this1, w1) \<Rightarrow> (Throw e, this1, w1)
         | (Undefined, this1, w1) \<Rightarrow> (Undefined, this1, w1))
      else (Normal (), this, w))"
  by pat_completeness auto
termination
proof (relation "measure (\<lambda>(i, n, this, w). unat n - unat i)")
  show "wf (measure (\<lambda>(i, n, this, w). unat n - unat i))"
    by simp
next
  fix i n :: size_t and this this1 :: vector and w w1 :: "'a world"
  assume "i < n"
  then have "unat n - unat (i + 1) < unat n - unat i"
    by unat_arith
  then show "((i + 1, n, this1, w1), (i, n, this, w))
      \<in> measure (\<lambda>(i, n, this, w). unat n - unat i)"
    by simp
qed

definition erase_range :: "ptr \<Rightarrow> ptr \<Rightarrow> vector \<Rightarrow> 'a world \<Rightarrow> ptr outcome \<times> vector \<times> 'a world" where
  "erase_range first last' this w =
     (case erase_range_loop first last' this w of
        (Normal u, w1) \<Rightarrow>
          (case ptr_diff last' first of
             None \<Rightarrow> (Undefined, this, w1)
           | Some d \<Rightarrow>
               (case erase_range_pops 0 (word_of_int d) this w1 of
                  (Normal u', this1, w2) \<Rightarrow> (Normal (ptr_add (begin_vec this1) d), this1, w2)
                | (Throw e, this1, w2) \<Rightarrow> (Throw e, this1, w2)
                | (Undefined, this1, w2) \<Rightarrow> (Undefined, this1, w2)))
      | (Throw e, w1) \<Rightarrow> (Throw e, this, w1)
      | (Undefined, w1) \<Rightarrow> (Undefined, this, w1))"

text \<open>
  \<^verbatim>\<open>
  vector<T>& vector<T>::operator=(vector<T> const& other) {
      if (this == &other) {
          return *this;
      }
      vector<T> tmp(other);
      this->swap(tmp);
      return *this;
  }
  \<close>
  The test compares the addresses of two vector objects, so the operator is modelled
  over a store of vector objects, \<open>this\<close> and \<open>other\<close> being addresses in it.
\<close>

type_synonym store = "nat \<Rightarrow> vector option"

definition operator_assign :: "nat \<Rightarrow> nat \<Rightarrow> store \<Rightarrow> 'a world \<Rightarrow> unit outcome \<times> store \<times> 'a world" where
  "operator_assign this other s w =
     (if this = other then (Normal (), s, w)
      else
        (case s this of
           Some t \<Rightarrow>
             (case s other of
                Some ot \<Rightarrow>
                  (case vector_copy_ctor ot w of
                     (Normal tmp, w1) \<Rightarrow>
                       (let (t', tmp') = swap t tmp;
                            (r, w2) = vector_dtor tmp' w1
                        in (r, s(this \<mapsto> t'), w2))
                   | (Throw e, w1) \<Rightarrow> (Throw e, s, w1)
                   | (Undefined, w1) \<Rightarrow> (Undefined, s, w1))
              | None \<Rightarrow> (Undefined, s, w))
         | None \<Rightarrow> (Undefined, s, w)))"

section \<open>What a vector holds\<close>

text \<open>
  \<open>contents v w\<close> reads the slots \<open>data_[0]\<close> to \<open>data_[size_ - 1]\<close> of the vector
  \<open>v\<close> in the memory \<open>w\<close>, and \<open>holds v w xs\<close> says that they are live objects with
  the values \<open>xs\<close>, in that order.

  \<open>heap_ok w\<close> is the allocator's own invariant: every block sits at an address that
  was handed out already and is shorter than the address space. \<open>same_shape w w'\<close>
  says that \<open>w'\<close> has the blocks of \<open>w\<close>, each of its old length.
\<close>

definition contents :: "vector \<Rightarrow> 'a world \<Rightarrow> 'a option option list" where
  "contents v w = map (\<lambda>i. slot w (ptr_add (data_m v) (int i))) [0..<unat (size_m v)]"

definition holds :: "vector \<Rightarrow> 'a world \<Rightarrow> 'a list \<Rightarrow> bool" where
  "holds v w xs = (contents v w = map (\<lambda>x. Some (Some x)) xs)"

definition heap_ok :: "'a world \<Rightarrow> bool" where
  "heap_ok w = (\<forall>c b. blocks w c = Some b \<longrightarrow> c \<le> allocs w \<and> length b < 2 ^ 64)"

definition same_shape :: "'a world \<Rightarrow> 'a world \<Rightarrow> bool" where
  "same_shape w w' = (\<forall>c. map_option length (blocks w' c) = map_option length (blocks w c))"

text \<open>
  \<open>allocated v w\<close> is the number of element slots of the buffer of \<open>v\<close>: the slots
  of its block from \<open>data_\<close> on, none where \<open>data_\<close> points at no block.
\<close>

definition allocated :: "vector \<Rightarrow> 'a world \<Rightarrow> nat" where
  "allocated v w = room w (data_m v)"

text \<open>
  Two memories to run the code in: \<open>fresh_world\<close> has no block yet, \<open>one_block\<close> has
  the single block 1 with the given slots. Elements are four bytes wide, no exchange
  fails, and the schedules for \<^verbatim>\<open>operator new\<close> and for the copy constructor are given.
\<close>

definition fresh_world :: "(nat \<Rightarrow> bool) \<Rightarrow> (nat \<Rightarrow> bool) \<Rightarrow> 'a world" where
  "fresh_world nf cf =
     \<lparr>blocks = (\<lambda>c. None), allocs = 0, copies = 0, swaps = 0, live = 0, sizeof_T = 4,
      new_fails = nf, copy_fails = cf, swap_fails = (\<lambda>i. False)\<rparr>"

definition one_block :: "'a option list \<Rightarrow> (nat \<Rightarrow> bool) \<Rightarrow> (nat \<Rightarrow> bool) \<Rightarrow> 'a world" where
  "one_block slots nf cf =
     \<lparr>blocks = (\<lambda>c. None)(1 \<mapsto> slots), allocs = 1, copies = 0, swaps = 0,
      live = int (length (filter (\<lambda>s. s \<noteq> None) slots)), sizeof_T = 4,
      new_fails = nf, copy_fails = cf, swap_fails = (\<lambda>i. False)\<rparr>"

text \<open>
  The states a program can bring about. A store maps the address of each vector object
  alive to its state. The program starts with no vector and no block, and each step is
  one public operation on the vectors of the store that returns normally or throws;
  a step whose behaviour is undefined leads nowhere. A vector object comes to be by the
  default or the copy constructor and goes away by its destructor.
\<close>

inductive reachable :: "store \<Rightarrow> 'a world \<Rightarrow> bool" where
  start:
    "blocks w = (\<lambda>c. None) \<Longrightarrow> reachable (\<lambda>a. None) w"
| default_construct:
    "reachable s w \<Longrightarrow> s a = None \<Longrightarrow> reachable (s(a \<mapsto> vector_ctor)) w"
| copy_construct:
    "reachable s w \<Longrightarrow> s a = None \<Longrightarrow> s b = Some other \<Longrightarrow>
     vector_copy_ctor other w = (Normal v, w') \<Longrightarrow> reachable (s(a \<mapsto> v)) w'"
| copy_construct_throws:
    "reachable s w \<Longrightarrow> s b = Some other \<Longrightarrow>
     vector_copy_ctor other w = (Throw e, w') \<Longrightarrow> reachable s w'"
| destruct:
    "reachable s w \<Longrightarrow> s a = Some v \<Longrightarrow>
     vector_dtor v w = (Normal (), w') \<Longrightarrow> reachable (s(a := None)) w'"
| copy_assign:
    "reachable s w \<Longrightarrow> operator_assign a b s w = (r, s', w') \<Longrightarrow> r \<noteq> Undefined \<Longrightarrow>
     reachable s' w'"
| do_push_back:
    "reachable s w \<Longrightarrow> s a = Some v \<Longrightarrow>
     push_back x v w = (r, v', w') \<Longrightarrow> r \<noteq> Undefined \<Longrightarrow> reachable (s(a \<mapsto> v')) w'"
| do_pop_back:
    "reachable s w \<Longrightarrow> s a = Some v \<Longrightarrow>
     pop_back v w = (r, v', w') \<Longrightarrow> r \<noteq> Undefined \<Longrightarrow> reachable (s(a \<mapsto> v')) w'"
| do_reserve:
    "reachable s w \<Longrightarrow> s a = Some v \<Longrightarrow>
     reserve n v w = (r, v', w') \<Longrightarrow> r \<noteq> Undefined \<Longrightarrow> reachable (s(a \<mapsto> v')) w'"
| do_shrink_to_fit:
    "reachable s w \<Longrightarrow> s a = Some v \<Longrightarrow>
     shrink_to_fit v w = (r, v', w') \<Longrightarrow> r \<noteq> Undefined \<Longrightarrow> reachable (s(a \<mapsto> v')) w'"
| do_clear:
    "reachable s w \<Longrightarrow> s a = Some v \<Longrightarrow>
     clear v w = (r, v', w') \<Longrightarrow> r \<noteq> Undefined \<Longrightarrow> reachable (s(a \<mapsto> v')) w'"
| do_swap:
    "reachable s w \<Longrightarrow> s a = Some v \<Longrightarrow> s b = Some u \<Longrightarrow>
     swap v u = (v', u') \<Longrightarrow> reachable (s(a \<mapsto> v', b \<mapsto> u')) w"
| do_insert:
    "reachable s w \<Longrightarrow> s a = Some v \<Longrightarrow>
     insert_vec pos x v w = (ri, v', w') \<Longrightarrow> ri \<noteq> Undefined \<Longrightarrow> reachable (s(a \<mapsto> v')) w'"
| do_erase:
    "reachable s w \<Longrightarrow> s a = Some v \<Longrightarrow>
     erase pos v w = (ri, v', w') \<Longrightarrow> ri \<noteq> Undefined \<Longrightarrow> reachable (s(a \<mapsto> v')) w'"
| do_erase_range:
    "reachable s w \<Longrightarrow> s a = Some v \<Longrightarrow>
     erase_range first last' v w = (ri, v', w') \<Longrightarrow> ri \<noteq> Undefined \<Longrightarrow>
     reachable (s(a \<mapsto> v')) w'"

text \<open>
  The representation invariant of one vector: with a capacity there is a buffer, without
  a capacity there are no elements, and \<open>data_\<close> is null or the start of a block.
\<close>

definition rep_ok :: "vector \<Rightarrow> bool" where
  "rep_ok v \<longleftrightarrow>
     (capacity_m v \<noteq> 0 \<longrightarrow> data_m v \<noteq> nullptr) \<and> (capacity_m v = 0 \<longrightarrow> size_m v = 0) \<and>
     off (data_m v) = 0"

text \<open>
  The growth test: push the values in order and record \<^verbatim>\<open>capacity()\<close> after each
  push.
\<close>

fun push_back_all :: "'a list \<Rightarrow> vector \<Rightarrow> 'a world \<Rightarrow> size_t list outcome \<times> vector \<times> 'a world" where
  "push_back_all [] this w = (Normal [], this, w)"
| "push_back_all (x # xs) this w =
     (case push_back x this w of
        (Normal u, this1, w1) \<Rightarrow>
          (case push_back_all xs this1 w1 of
             (Normal cs, this2, w2) \<Rightarrow> (Normal (capacity this1 # cs), this2, w2)
           | (Throw e, this2, w2) \<Rightarrow> (Throw e, this2, w2)
           | (Undefined, this2, w2) \<Rightarrow> (Undefined, this2, w2))
      | (Throw e, this1, w1) \<Rightarrow> (Throw e, this1, w1)
      | (Undefined, this1, w1) \<Rightarrow> (Undefined, this1, w1))"

section \<open>Pointers, slots and the primitives\<close>

declare destroy_all_loop.simps [simp del] copy_construct_loop.simps [simp del]
  insert_loop.simps [simp del] erase_loop.simps [simp del]
  erase_range_loop.simps [simp del] erase_range_pops.simps [simp del]


lemma holds_iff:
  "holds v w xs \<longleftrightarrow>
     length xs = unat (size_m v) \<and>
     (\<forall>i<length xs. slot w (ptr_add (data_m v) (int i)) = Some (Some (xs ! i)))"
  by (auto simp: holds_def contents_def list_eq_iff_nth_eq)


lemma ptr_add_simps [simp]:
  "blk (ptr_add p n) = blk p" "off (ptr_add p n) = off p + n"
  "ptr_add (ptr_add p n) m = ptr_add p (n + m)" "ptr_add p 0 = p"
  by (simp_all add: ptr_add_def)

lemma ptr_add_inject [simp]: "ptr_add p n = ptr_add p m \<longleftrightarrow> n = m"
  by (simp add: ptr_add_def)

lemma slot_update_simps [simp]:
  "slot (w\<lparr>allocs := a\<rparr>) p = slot w p"
  "slot (w\<lparr>copies := c\<rparr>) p = slot w p"
  "slot (w\<lparr>swaps := s\<rparr>) p = slot w p"
  "slot (w\<lparr>live := l\<rparr>) p = slot w p"
  by (simp_all add: slot_def)

lemma set_slot_fields [simp]:
  "allocs (set_slot p x w) = allocs w"
  "copies (set_slot p x w) = copies w"
  "swaps (set_slot p x w) = swaps w"
  "live (set_slot p x w) = live w"
  "sizeof_T (set_slot p x w) = sizeof_T w"
  "new_fails (set_slot p x w) = new_fails w"
  "copy_fails (set_slot p x w) = copy_fails w"
  "swap_fails (set_slot p x w) = swap_fails w"
  by (simp_all add: set_slot_def split: option.splits)

lemma slot_set_slot:
  "slot (set_slot p x w) q = (if q = p \<and> slot w p \<noteq> None then Some x else slot w q)"
  by (cases p; cases q) (auto simp: slot_def set_slot_def split: option.splits)

lemma blocks_set_slot_other:
  "c \<noteq> blk p \<Longrightarrow> blocks (set_slot p x w) c = blocks w c"
  by (simp add: set_slot_def split: option.splits)

lemma blocks_set_slot_None:
  "blocks (set_slot p x w) c = None \<longleftrightarrow> blocks w c = None"
  by (simp add: set_slot_def split: option.splits)

lemma length_set_slot:
  "blocks w c = Some b \<Longrightarrow> \<exists>b'. blocks (set_slot p x w) c = Some b' \<and> length b' = length b"
  by (auto simp: set_slot_def split: option.splits)


lemma slot_cong: "blocks w' (blk q) = blocks w (blk q) \<Longrightarrow> slot w' q = slot w q"
  by (simp add: slot_def)

lemma slot_SomeD:
  "slot w p = Some y \<Longrightarrow> \<exists>b. blocks w (blk p) = Some b \<and> 0 \<le> off p \<and> nat (off p) < length b \<and> blk p \<noteq> 0"
  by (auto simp: slot_def split: option.splits if_splits)

lemma heap_ok_set_slot [simp]: "heap_ok (set_slot p x w) = heap_ok w"
  by (auto simp: heap_ok_def set_slot_def split: option.splits)

lemma heap_ok_update_simps [simp]:
  "heap_ok (w\<lparr>copies := c\<rparr>) = heap_ok w"
  "heap_ok (w\<lparr>swaps := s\<rparr>) = heap_ok w"
  "heap_ok (w\<lparr>live := l\<rparr>) = heap_ok w"
  by (simp_all add: heap_ok_def)

subsection \<open>The primitives\<close>

lemma construct_at_Normal:
  "construct_at p x w = (Normal u, w') \<longleftrightarrow>
     slot w p = Some None \<and> \<not> copy_fails w (copies w) \<and>
     w' = set_slot p (Some x) (w\<lparr>copies := Suc (copies w), live := live w + 1\<rparr>)"
  by (auto simp: construct_at_def copy_T_def split: option.splits)

lemma construct_at_Throw:
  "construct_at p x w = (Throw e, w') \<longleftrightarrow>
     slot w p = Some None \<and> copy_fails w (copies w) \<and> e = ElementOperationFailure \<and>
     w' = w\<lparr>copies := Suc (copies w)\<rparr>"
  by (auto simp: construct_at_def copy_T_def split: option.splits)

lemma destroy_at_Normal:
  "destroy_at p w = (Normal u, w') \<longleftrightarrow>
     (\<exists>x. slot w p = Some (Some x)) \<and> w' = (set_slot p None w)\<lparr>live := live w - 1\<rparr>"
  by (auto simp: destroy_at_def split: option.splits)

lemma destroy_at_Throw [simp]: "destroy_at p w \<noteq> (Throw e, w')"
  by (auto simp: destroy_at_def split: option.splits)

lemma std_swap_Normal:
  "std_swap p q w = (Normal u, w') \<longleftrightarrow>
     (\<exists>x y. slot w p = Some (Some x) \<and> slot w q = Some (Some y) \<and> \<not> swap_fails w (swaps w) \<and>
        w' = set_slot q (Some x) (set_slot p (Some y) (w\<lparr>swaps := Suc (swaps w)\<rparr>)))"
  by (auto simp: std_swap_def split: option.splits)

lemma std_swap_Throw:
  "std_swap p q w = (Throw e, w') \<longleftrightarrow>
     (\<exists>x y. slot w p = Some (Some x) \<and> slot w q = Some (Some y)) \<and> swap_fails w (swaps w) \<and>
        e = ElementOperationFailure \<and> w' = w\<lparr>swaps := Suc (swaps w)\<rparr>"
  by (auto simp: std_swap_def split: option.splits)

lemma operator_new_Normal:
  "operator_new bytes w = (Normal p, w') \<longleftrightarrow>
     \<not> new_fails w (allocs w) \<and> p = Ptr (Suc (allocs w)) 0 \<and>
     w' = w\<lparr>allocs := Suc (allocs w),
            blocks := (blocks w)(Suc (allocs w) \<mapsto> replicate (unat bytes div unat (sizeof_T w)) None)\<rparr>"
  by (auto simp: operator_new_def)

lemma operator_new_Throw:
  "operator_new bytes w = (Throw e, w') \<longleftrightarrow>
     new_fails w (allocs w) \<and> e = AllocationFailure \<and> w' = w\<lparr>allocs := Suc (allocs w)\<rparr>"
  by (auto simp: operator_new_def)

lemma operator_new_Undefined [simp]: "operator_new bytes w \<noteq> (Undefined, w')"
  by (auto simp: operator_new_def)

lemma heap_ok_operator_new:
  "operator_new bytes w = (r, w') \<Longrightarrow> heap_ok w \<Longrightarrow> heap_ok w'"
proof -
  have "unat bytes div unat (sizeof_T w) \<le> unat bytes"
    by (rule div_le_dividend)
  moreover have "unat bytes < 2 ^ 64"
    using unsigned_less [of bytes, where 'a = nat] by simp
  ultimately have len: "unat bytes div unat (sizeof_T w) < 2 ^ 64"
    by (rule le_less_trans)
  assume "operator_new bytes w = (r, w')" and "heap_ok w"
  with len show ?thesis
    by (auto simp: operator_new_def heap_ok_def le_Suc_eq split: if_splits)
qed

lemma operator_delete_nullptr [simp]: "operator_delete nullptr w = (Normal (), w)"
  by (simp add: operator_delete_def)

lemma operator_delete_cases:
  "operator_delete p w = (r, w') \<Longrightarrow>
     (\<forall>e. r \<noteq> Throw e) \<and> allocs w' = allocs w \<and>
     (\<forall>c. c \<noteq> blk p \<longrightarrow> blocks w' c = blocks w c) \<and>
     (heap_ok w \<longrightarrow> heap_ok w') \<and>
     (r = Normal () \<and> p \<noteq> nullptr \<longrightarrow> blocks w' (blk p) = None)"
  by (auto simp: operator_delete_def heap_ok_def split: if_splits)


subsection \<open>destroy_all\<close>

lemma destroy_all_loop_step:
  "i < sz \<Longrightarrow> destroy_all_loop vec sz i w =
     (case destroy_at (ptr_add vec i) w of
        (Normal u, w') \<Rightarrow> destroy_all_loop vec sz (i + 1) w'
      | (Throw e, w') \<Rightarrow> (Throw e, w')
      | (Undefined, w') \<Rightarrow> (Undefined, w'))"
  by (subst destroy_all_loop.simps) simp

lemma destroy_all_loop_stop:
  "\<not> i < sz \<Longrightarrow> destroy_all_loop vec sz i w = (Normal (), w)"
  by (subst destroy_all_loop.simps) simp

lemma destroy_all_loop_frame:
  "destroy_all_loop vec sz i w = (r, w') \<Longrightarrow>
     (\<forall>e. r \<noteq> Throw e) \<and> allocs w' = allocs w \<and>
     (\<forall>c. c \<noteq> blk vec \<longrightarrow> blocks w' c = blocks w c) \<and> (heap_ok w \<longrightarrow> heap_ok w')"
proof (induction vec sz i w rule: destroy_all_loop.induct)
  case (1 vec sz i w)
  show ?case
  proof (cases "i < sz")
    case False
    with "1.prems" show ?thesis
      by (auto simp: destroy_all_loop_stop)
  next
    case True
    show ?thesis
    proof (cases "destroy_at (ptr_add vec i) w")
      case (Pair r1 w1)
      show ?thesis
      proof (cases r1)
        case (Normal u)
        with Pair have w1: "w1 = (set_slot (ptr_add vec i) None w)\<lparr>live := live w - 1\<rparr>"
          by (simp add: destroy_at_Normal)
        from True Pair Normal "1.prems" have "destroy_all_loop vec sz (i + 1) w1 = (r, w')"
          by (simp add: destroy_all_loop_step)
        from "1.IH" [OF True Pair [symmetric] Normal this]
        show ?thesis
          by (simp add: w1 blocks_set_slot_other)
      next
        case (Throw e')
        with Pair show ?thesis by simp
      next
        case Undefined
        with Pair True "1.prems" show ?thesis
          by (auto simp: destroy_all_loop_step destroy_at_def split: option.splits)
      qed
    qed
  qed
qed

lemma destroy_all_frame:
  "destroy_all vec sz w = (r, w') \<Longrightarrow>
     (\<forall>e. r \<noteq> Throw e) \<and> allocs w' = allocs w \<and>
     (\<forall>c. c \<noteq> blk vec \<longrightarrow> blocks w' c = blocks w c) \<and> (heap_ok w \<longrightarrow> heap_ok w')"
  unfolding destroy_all_def by (rule destroy_all_loop_frame)

lemma destroy_all_nonpos: "sz \<le> 0 \<Longrightarrow> destroy_all vec sz w = (Normal (), w)"
  by (simp add: destroy_all_def destroy_all_loop_stop)


subsection \<open>copy_construct_all\<close>

lemma copy_construct_loop_step:
  "i < sz \<Longrightarrow> copy_construct_loop dst src sz i w =
     (case slot w (ptr_add src (uint i)) of
        Some (Some x) \<Rightarrow>
          (case construct_at (ptr_add dst (uint i)) x w of
             (Normal u, w') \<Rightarrow> copy_construct_loop dst src sz (i + 1) w'
           | (Throw e, w') \<Rightarrow> (Throw e, i, w')
           | (Undefined, w') \<Rightarrow> (Undefined, i, w'))
      | _ \<Rightarrow> (Undefined, i, w))"
  by (subst copy_construct_loop.simps) simp

lemma copy_construct_loop_stop:
  "\<not> i < sz \<Longrightarrow> copy_construct_loop dst src sz i w = (Normal (), i, w)"
  by (subst copy_construct_loop.simps) simp

lemma unat_inc: "(i :: size_t) < sz \<Longrightarrow> unat (i + 1) = Suc (unat i)"
  by unat_arith

lemma construct_at_Undefined: "construct_at p x w = (Undefined, w') \<Longrightarrow> w' = w"
  by (auto simp: construct_at_def copy_T_def split: option.splits if_splits)


lemma copy_construct_loop_cases:
  assumes "i < sz" and "copy_construct_loop dst src sz i w = (r, i', w')"
  shows "(r = Undefined \<and> i' = i \<and> w' = w) \<or>
         (r = Throw ElementOperationFailure \<and> i' = i \<and> w' = w\<lparr>copies := Suc (copies w)\<rparr> \<and>
            copy_fails w (copies w) \<and> slot w (ptr_add dst (uint i)) = Some None \<and>
            (\<exists>x. slot w (ptr_add src (uint i)) = Some (Some x))) \<or>
         (\<exists>x. slot w (ptr_add src (uint i)) = Some (Some x) \<and>
            slot w (ptr_add dst (uint i)) = Some None \<and> \<not> copy_fails w (copies w) \<and>
            copy_construct_loop dst src sz (i + 1)
              (set_slot (ptr_add dst (uint i)) (Some x)
                 (w\<lparr>copies := Suc (copies w), live := live w + 1\<rparr>)) = (r, i', w'))"
proof (cases "slot w (ptr_add src (uint i))")
  case None
  with assms show ?thesis
    by (simp add: copy_construct_loop_step)
next
  case (Some y)
  show ?thesis
  proof (cases y)
    case None
    with Some assms show ?thesis
      by (simp add: copy_construct_loop_step)
  next
    case (Some x)
    with \<open>slot w (ptr_add src (uint i)) = Some y\<close>
    have live: "slot w (ptr_add src (uint i)) = Some (Some x)"
      by simp
    obtain r1 w1 where c: "construct_at (ptr_add dst (uint i)) x w = (r1, w1)"
      by (cases "construct_at (ptr_add dst (uint i)) x w")
    show ?thesis
    proof (cases r1)
      case (Normal u)
      with assms live c have "copy_construct_loop dst src sz (i + 1) w1 = (r, i', w')"
        by (simp add: copy_construct_loop_step)
      moreover from c Normal have "slot w (ptr_add dst (uint i)) = Some None"
        "\<not> copy_fails w (copies w)"
        "w1 = set_slot (ptr_add dst (uint i)) (Some x)
              (w\<lparr>copies := Suc (copies w), live := live w + 1\<rparr>)"
        by (simp_all add: construct_at_Normal)
      ultimately show ?thesis
        using live by simp
    next
      case (Throw e)
      with assms live c have "r = Throw e" "i' = i" "w' = w1"
        by (simp_all add: copy_construct_loop_step)
      moreover from c Throw have "slot w (ptr_add dst (uint i)) = Some None"
        "copy_fails w (copies w)" "e = ElementOperationFailure" "w1 = w\<lparr>copies := Suc (copies w)\<rparr>"
        by (simp_all add: construct_at_Throw)
      ultimately show ?thesis
        using live by simp
    next
      case Undefined
      with assms live c have "r = Undefined" "i' = i" "w' = w1"
        by (simp_all add: copy_construct_loop_step)
      moreover from c Undefined have "w1 = w"
        by (simp add: construct_at_Undefined)
      ultimately show ?thesis
        by simp
    qed
  qed
qed


lemma uint_eq_int: "uint (i::'a::len word) = int k \<longleftrightarrow> unat i = k"
  by (metis nat_int nat_uint_eq uint_nat)

lemma copy_construct_loop_frame:
  "copy_construct_loop dst src sz i w = (r, i', w') \<Longrightarrow>
     allocs w' = allocs w \<and> (\<forall>c. c \<noteq> blk dst \<longrightarrow> blocks w' c = blocks w c) \<and>
     (heap_ok w \<longrightarrow> heap_ok w')"
proof (induction dst src sz i w rule: copy_construct_loop.induct)
  case (1 dst src sz i w)
  show ?case
  proof (cases "i < sz")
    case False
    with "1.prems" show ?thesis
      by (auto simp: copy_construct_loop_stop)
  next
    case True
    from copy_construct_loop_cases [OF True "1.prems"]
    consider "w' = w" | "w' = w\<lparr>copies := Suc (copies w)\<rparr>"
      | x where "slot w (ptr_add src (uint i)) = Some (Some x)"
          "slot w (ptr_add dst (uint i)) = Some None" "\<not> copy_fails w (copies w)"
          "copy_construct_loop dst src sz (i + 1)
              (set_slot (ptr_add dst (uint i)) (Some x)
                 (w\<lparr>copies := Suc (copies w), live := live w + 1\<rparr>)) = (r, i', w')"
      by blast
    then show ?thesis
    proof cases
      case 1
      then show ?thesis by simp
    next
      case 2
      then show ?thesis by simp
    next
      case (3 x)
      define w1 where "w1 = set_slot (ptr_add dst (uint i)) (Some x)
                 (w\<lparr>copies := Suc (copies w), live := live w + 1\<rparr>)"
      from 3 have c: "construct_at (ptr_add dst (uint i)) x w = (Normal (), w1)"
        by (simp add: construct_at_Normal w1_def)
      from 3 have rest: "copy_construct_loop dst src sz (i + 1) w1 = (r, i', w')"
        by (simp add: w1_def)
      from "1.IH" [OF True 3(1) refl c [symmetric] refl rest]
      show ?thesis
        by (simp add: w1_def blocks_set_slot_other)
    qed
  qed
qed

lemma copy_construct_loop_Normal:
  "copy_construct_loop dst src sz i w = (Normal u, i', w') \<Longrightarrow> blk dst \<noteq> blk src \<Longrightarrow>
     (\<forall>k. unat i \<le> k \<and> k < unat sz \<longrightarrow>
        (\<exists>x. slot w (ptr_add src (int k)) = Some (Some x) \<and>
             slot w' (ptr_add dst (int k)) = Some (Some x))) \<and>
     (\<forall>q. (\<forall>k. unat i \<le> k \<and> k < unat sz \<longrightarrow> q \<noteq> ptr_add dst (int k)) \<longrightarrow> slot w' q = slot w q)"
proof (induction dst src sz i w rule: copy_construct_loop.induct)
  case (1 dst src sz i w)
  show ?case
  proof (cases "i < sz")
    case False
    then have "\<not> unat i < unat sz"
      by (simp add: word_less_nat_alt)
    with False "1.prems" show ?thesis
      by (auto simp: copy_construct_loop_stop)
  next
    case True
    then have lt: "unat i < unat sz" and suc: "unat (i + 1) = Suc (unat i)"
      by (simp_all add: word_less_nat_alt unat_inc)
    from copy_construct_loop_cases [OF True "1.prems"(1)]
    obtain x where live: "slot w (ptr_add src (uint i)) = Some (Some x)"
      and raw: "slot w (ptr_add dst (uint i)) = Some None"
      and nofail: "\<not> copy_fails w (copies w)"
      and rest0: "copy_construct_loop dst src sz (i + 1)
              (set_slot (ptr_add dst (uint i)) (Some x)
                 (w\<lparr>copies := Suc (copies w), live := live w + 1\<rparr>)) = (Normal u, i', w')"
      by blast
    define w1 where "w1 = set_slot (ptr_add dst (uint i)) (Some x)
                 (w\<lparr>copies := Suc (copies w), live := live w + 1\<rparr>)"
    from raw nofail have c: "construct_at (ptr_add dst (uint i)) x w = (Normal (), w1)"
      by (simp add: construct_at_Normal w1_def)
    from rest0 have rest: "copy_construct_loop dst src sz (i + 1) w1 = (Normal u, i', w')"
      by (simp add: w1_def)
    have w1_slot: "slot w1 q = (if q = ptr_add dst (uint i) then Some (Some x) else slot w q)" for q
      by (simp add: w1_def slot_set_slot raw)
    from "1.IH" [OF True live refl c [symmetric] refl rest "1.prems"(2)]
    have IH1: "\<forall>k. Suc (unat i) \<le> k \<and> k < unat sz \<longrightarrow>
        (\<exists>x. slot w1 (ptr_add src (int k)) = Some (Some x) \<and>
             slot w' (ptr_add dst (int k)) = Some (Some x))"
      and IH2: "\<forall>q. (\<forall>k. Suc (unat i) \<le> k \<and> k < unat sz \<longrightarrow> q \<noteq> ptr_add dst (int k))
          \<longrightarrow> slot w' q = slot w1 q"
      by (simp_all add: suc)
    have src_same: "slot w1 (ptr_add src n) = slot w (ptr_add src n)" for n
      using "1.prems"(2) by (auto simp: w1_slot ptr_add_def)
    have first: "slot w' (ptr_add dst (int (unat i))) = Some (Some x)"
    proof -
      have "\<forall>k. Suc (unat i) \<le> k \<and> k < unat sz \<longrightarrow> ptr_add dst (uint i) \<noteq> ptr_add dst (int k)"
        by (simp add: uint_eq_int)
      with IH2 have "slot w' (ptr_add dst (uint i)) = slot w1 (ptr_add dst (uint i))"
        by blast
      then show ?thesis
        by (simp add: w1_slot)
    qed
    show ?thesis
    proof (intro conjI allI impI)
      fix k assume k: "unat i \<le> k \<and> k < unat sz"
      show "\<exists>x. slot w (ptr_add src (int k)) = Some (Some x) \<and>
             slot w' (ptr_add dst (int k)) = Some (Some x)"
      proof (cases "k = unat i")
        case True
        with live first show ?thesis
          by simp
      next
        case False
        with k have "Suc (unat i) \<le> k \<and> k < unat sz"
          by simp
        with IH1 src_same show ?thesis
          by auto
      qed
    next
      fix q assume q: "\<forall>k. unat i \<le> k \<and> k < unat sz \<longrightarrow> q \<noteq> ptr_add dst (int k)"
      with lt have "q \<noteq> ptr_add dst (int (unat i))"
        by blast
      then have "q \<noteq> ptr_add dst (uint i)"
        by simp
      moreover from q have "\<forall>k. Suc (unat i) \<le> k \<and> k < unat sz \<longrightarrow> q \<noteq> ptr_add dst (int k)"
        by auto
      ultimately show "slot w' q = slot w q"
        using IH2 by (simp add: w1_slot)
    qed
  qed
qed


lemma unwind_simps [simp]:
  "unwind p (Normal u, w) = (p, w)"
  "unwind p (Throw e, w) = (Undefined, w)"
  "unwind p (Undefined, w) = (Undefined, w)"
  by (simp_all add: unwind_def)

lemma copy_construct_all_frame:
  "copy_construct_all dst src sz w = (r, w') \<Longrightarrow>
     allocs w' = allocs w \<and> (\<forall>c. c \<noteq> blk dst \<longrightarrow> blocks w' c = blocks w c) \<and>
     (heap_ok w \<longrightarrow> heap_ok w')"
proof -
  assume a: "copy_construct_all dst src sz w = (r, w')"
  obtain r1 i1 w1 where l: "copy_construct_loop dst src sz 0 w = (r1, i1, w1)"
    by (cases "copy_construct_loop dst src sz 0 w")
  note f1 = copy_construct_loop_frame [OF l]
  show ?thesis
  proof (cases r1)
    case (Normal u)
    with a l f1 show ?thesis
      by (simp add: copy_construct_all_def)
  next
    case Undefined
    with a l f1 show ?thesis
      by (simp add: copy_construct_all_def)
  next
    case (Throw e)
    obtain r2 w2 where d: "destroy_all dst (to_int i1) w1 = (r2, w2)"
      by (cases "destroy_all dst (to_int i1) w1")
    note f2 = destroy_all_frame [OF d]
    from a l Throw d have "w' = w2"
      by (cases r2) (simp_all add: copy_construct_all_def)
    with f1 f2 show ?thesis
      by simp
  qed
qed

lemma copy_construct_all_Normal:
  assumes "copy_construct_all dst src sz w = (Normal u, w')" and "blk dst \<noteq> blk src"
  shows "\<forall>k<unat sz. \<exists>x. slot w (ptr_add src (int k)) = Some (Some x) \<and>
             slot w' (ptr_add dst (int k)) = Some (Some x)"
proof -
  obtain r1 i1 w1 where l: "copy_construct_loop dst src sz 0 w = (r1, i1, w1)"
    by (cases "copy_construct_loop dst src sz 0 w")
  have "r1 = Normal () \<and> w1 = w'"
  proof (cases r1)
    case (Throw e)
    obtain r2 w2 where d: "destroy_all dst (to_int i1) w1 = (r2, w2)"
      by (cases "destroy_all dst (to_int i1) w1")
    with assms(1) l Throw show ?thesis
      by (cases r2) (simp_all add: copy_construct_all_def)
  qed (use assms(1) l in \<open>simp_all add: copy_construct_all_def\<close>)
  with l have "copy_construct_loop dst src sz 0 w = (Normal (), i1, w')"
    by simp
  from copy_construct_loop_Normal [OF this assms(2)] show ?thesis
    by simp
qed

lemma swap_eq [simp]: "swap a b = (b, a)"
  by (cases a; cases b) (simp add: swap_def)

lemma vector_dtor_frame:
  "vector_dtor v w = (r, w') \<Longrightarrow>
     (\<forall>e. r \<noteq> Throw e) \<and> allocs w' = allocs w \<and>
     (\<forall>c. c \<noteq> blk (data_m v) \<longrightarrow> blocks w' c = blocks w c) \<and> (heap_ok w \<longrightarrow> heap_ok w')"
proof -
  assume a: "vector_dtor v w = (r, w')"
  obtain r1 w1 where d: "destroy_all (data_m v) (to_int (size_m v)) w = (r1, w1)"
    by (cases "destroy_all (data_m v) (to_int (size_m v)) w")
  note f1 = destroy_all_frame [OF d]
  show ?thesis
  proof (cases r1)
    case (Normal u)
    with a d have "operator_delete (data_m v) w1 = (r, w')"
      by (simp add: vector_dtor_def)
    from operator_delete_cases [OF this] f1 show ?thesis
      by simp
  next
    case (Throw e')
    with f1 show ?thesis
      by simp
  next
    case Undefined
    with a d f1 show ?thesis
      by (auto simp: vector_dtor_def)
  qed
qed

lemma vector_dtor_empty [simp]: "vector_dtor vector_ctor w = (Normal (), w)"
  by (simp add: vector_dtor_def vector_ctor_def to_int_def destroy_all_nonpos operator_delete_def)

lemma vector_dtor_no_elements:
  "vector_dtor \<lparr>data_m = p, size_m = 0, capacity_m = c\<rparr> w = operator_delete p w"
  by (simp add: vector_dtor_def to_int_def destroy_all_nonpos)

lemma new_buffer_unfold:
  "new_buffer n this w =
     (if n \<noteq> 0 then
        (case operator_new (n * sizeof_T w) w of
           (Normal p, w1) \<Rightarrow>
             (case copy_construct_all p (data_m this) (size_m this) w1 of
                (Normal u, w2) \<Rightarrow>
                  (case vector_dtor this w2 of
                     (r, w3) \<Rightarrow> (r, \<lparr>data_m = p, size_m = size_m this, capacity_m = n\<rparr>, w3))
              | (Throw e, w2) \<Rightarrow>
                  (case unwind (Throw e) (operator_delete p w2) of (r, w3) \<Rightarrow> (r, this, w3))
              | (Undefined, w2) \<Rightarrow> (Undefined, this, w2))
         | (Throw e, w1) \<Rightarrow> (Throw e, this, w1)
         | (Undefined, w1) \<Rightarrow> (Undefined, this, w1))
      else (case vector_dtor this w of (r, w1) \<Rightarrow> (r, vector_ctor, w1)))"
  by (simp add: new_buffer_def Let_def vector_ctor_def vector_dtor_no_elements
        vector_dtor_empty [unfolded vector_ctor_def]
      split: prod.splits outcome.splits)


lemma holds_frame:
  "holds v w xs \<Longrightarrow> (xs \<noteq> [] \<Longrightarrow> blocks w' (blk (data_m v)) = blocks w (blk (data_m v))) \<Longrightarrow>
     holds v w' xs"
  by (cases "xs = []") (auto simp: holds_iff slot_cong [of w' _ w])

lemma holds_block:
  assumes "holds v w xs" and "xs \<noteq> []" and "heap_ok w"
  shows "blk (data_m v) \<le> allocs w \<and> blk (data_m v) \<noteq> 0"
proof -
  from assms(1,2) have "slot w (ptr_add (data_m v) (int 0)) = Some (Some (xs ! 0))"
    unfolding holds_iff by blast
  from slot_SomeD [OF this] assms(3) show ?thesis
    by (auto simp: heap_ok_def)
qed

lemma holds_size: "holds v w xs \<Longrightarrow> length xs = unat (size_m v)"
  by (simp add: holds_iff)

lemma new_buffer_frame:
  assumes "new_buffer n this w = (r, this', w')"
  shows "allocs w \<le> allocs w' \<and>
     (\<forall>c. c \<noteq> blk (data_m this) \<and> c \<noteq> Suc (allocs w) \<longrightarrow> blocks w' c = blocks w c) \<and>
     (heap_ok w \<longrightarrow> heap_ok w') \<and>
     (\<forall>e. r = Throw e \<longrightarrow> this' = this \<and> (\<forall>c. c \<noteq> Suc (allocs w) \<longrightarrow> blocks w' c = blocks w c))"
proof (cases "n = 0")
  case True
  with assms obtain r1 where d: "vector_dtor this w = (r1, w')" and "r = r1"
    by (auto simp: new_buffer_unfold split: prod.splits)
  with vector_dtor_frame [OF d] show ?thesis
    by simp
next
  case False
  obtain r1 w1 where a: "operator_new (n * sizeof_T w) w = (r1, w1)"
    by (cases "operator_new (n * sizeof_T w) w")
  note h1 = heap_ok_operator_new [OF a]
  show ?thesis
  proof (cases r1)
    case Undefined
    with a show ?thesis by simp
  next
    case (Throw e)
    with a assms False have "r = Throw e" "this' = this" "w' = w1"
      by (simp_all add: new_buffer_unfold)
    moreover from a Throw have "w1 = w\<lparr>allocs := Suc (allocs w)\<rparr>"
      by (simp add: operator_new_Throw)
    ultimately show ?thesis
      using h1 by auto
  next
    case (Normal p)
    with a have p: "p = Ptr (Suc (allocs w)) 0"
      and w1: "w1 = w\<lparr>allocs := Suc (allocs w),
            blocks := (blocks w)(Suc (allocs w) \<mapsto> replicate (unat (n * sizeof_T w) div unat (sizeof_T w)) None)\<rparr>"
      by (simp_all add: operator_new_Normal)
    obtain r2 w2 where b: "copy_construct_all p (data_m this) (size_m this) w1 = (r2, w2)"
      by (cases "copy_construct_all p (data_m this) (size_m this) w1")
    note f2 = copy_construct_all_frame [OF b]
    from f2 h1 have 12: "allocs w2 = Suc (allocs w)"
      "\<forall>c. c \<noteq> Suc (allocs w) \<longrightarrow> blocks w2 c = blocks w c" "heap_ok w \<longrightarrow> heap_ok w2"
      by (simp_all add: p w1)
    show ?thesis
    proof (cases r2)
      case Undefined
      with a Normal b assms False have "r = Undefined" "w' = w2"
        by (simp_all add: new_buffer_unfold)
      with 12 show ?thesis by simp
    next
      case (Throw e)
      obtain r3 w3 where c: "operator_delete p w2 = (r3, w3)"
        by (cases "operator_delete p w2")
      from a Normal b Throw c assms False have "this' = this" "w' = w3"
        by (cases r3; simp add: new_buffer_unfold)+
      with operator_delete_cases [OF c] 12 show ?thesis
        by (simp add: p)
    next
      case Normal2: (Normal u)
      obtain r3 w3 where c: "vector_dtor this w2 = (r3, w3)"
        by (cases "vector_dtor this w2")
      from a Normal b Normal2 c assms False have "r = r3" "w' = w3"
        by (simp_all add: new_buffer_unfold)
      with vector_dtor_frame [OF c] 12 show ?thesis
        by simp
    qed
  qed
qed

lemma new_buffer_Throw:
  assumes "new_buffer n this w = (Throw e, this', w')" and "holds this w xs" and "heap_ok w"
  shows "this' = this \<and> holds this w' xs \<and> heap_ok w'"
proof -
  from new_buffer_frame [OF assms(1)] assms(3)
  have 1: "this' = this" "\<forall>c. c \<noteq> Suc (allocs w) \<longrightarrow> blocks w' c = blocks w c" "heap_ok w'"
    by simp_all
  have "holds this w' xs"
  proof (rule holds_frame [OF assms(2)])
    assume "xs \<noteq> []"
    from holds_block [OF assms(2) this assms(3)] 1(2)
    show "blocks w' (blk (data_m this)) = blocks w (blk (data_m this))"
      by simp
  qed
  with 1 show ?thesis by simp
qed

lemma new_buffer_Normal:
  assumes "new_buffer n this w = (Normal u, this', w')" and "n \<noteq> 0"
    and "holds this w xs" and "heap_ok w"
  shows "this' = \<lparr>data_m = Ptr (Suc (allocs w)) 0, size_m = size_m this, capacity_m = n\<rparr> \<and>
         holds this' w' xs \<and> heap_ok w'"
proof -
  define p where "p = Ptr (Suc (allocs w)) 0"
  define w1 where "w1 = w\<lparr>allocs := Suc (allocs w),
            blocks := (blocks w)(Suc (allocs w) \<mapsto> replicate (unat (n * sizeof_T w) div unat (sizeof_T w)) None)\<rparr>"
  obtain r1 w1' where a: "operator_new (n * sizeof_T w) w = (r1, w1')"
    by (cases "operator_new (n * sizeof_T w) w")
  from a assms(1,2) obtain p' where r1: "r1 = Normal p'"
    by (cases r1) (simp_all add: new_buffer_unfold)
  with a have a': "operator_new (n * sizeof_T w) w = (Normal p, w1)"
    by (simp add: operator_new_Normal p_def w1_def)
  obtain r2 w2 where b0: "copy_construct_all p (data_m this) (size_m this) w1 = (r2, w2)"
    by (cases "copy_construct_all p (data_m this) (size_m this) w1")
  have r2: "r2 = Normal ()"
  proof (cases r2)
    case (Throw e)
    obtain r3 w3 where "operator_delete p w2 = (r3, w3)"
      by (cases "operator_delete p w2")
    with a' b0 Throw assms(1,2) show ?thesis
      by (cases r3) (simp_all add: new_buffer_unfold)
  qed (use a' b0 assms(1,2) in \<open>simp_all add: new_buffer_unfold\<close>)
  with b0 have b: "copy_construct_all p (data_m this) (size_m this) w1 = (Normal (), w2)"
    by simp
  obtain r3 w3 where c0: "vector_dtor this w2 = (r3, w3)"
    by (cases "vector_dtor this w2")
  with a' b assms(1,2) have c: "vector_dtor this w2 = (Normal u, w')"
    and this': "this' = \<lparr>data_m = p, size_m = size_m this, capacity_m = n\<rparr>"
    by (simp_all add: new_buffer_unfold)
  from new_buffer_frame [OF assms(1)] assms(4) have ok: "heap_ok w'"
    by simp
  have "holds this' w' xs"
  proof (cases "xs = []")
    case True
    with assms(3) show ?thesis
      by (simp add: holds_iff this')
  next
    case False
    from holds_block [OF assms(3) False assms(4)]
    have ne: "blk p \<noteq> blk (data_m this)"
      by (simp add: p_def)
    from copy_construct_all_Normal [OF b ne]
    have copy: "\<forall>k<unat (size_m this). \<exists>x. slot w1 (ptr_add (data_m this) (int k)) = Some (Some x) \<and>
             slot w2 (ptr_add p (int k)) = Some (Some x)" .
    have same1: "slot w1 (ptr_add (data_m this) k) = slot w (ptr_add (data_m this) k)" for k
      using ne by (intro slot_cong) (simp add: w1_def p_def)
    have same2: "slot w' (ptr_add p k) = slot w2 (ptr_add p k)" for k
      using vector_dtor_frame [OF c] ne by (intro slot_cong) simp
    from assms(3) copy show ?thesis
      by (auto simp: holds_iff this' same1 same2)
  qed
  with ok this' show ?thesis
    by (simp add: p_def)
qed


lemma same_shape_refl [simp]: "same_shape w w"
  by (simp add: same_shape_def)

lemma same_shape_trans: "same_shape w w1 \<Longrightarrow> same_shape w1 w2 \<Longrightarrow> same_shape w w2"
  by (simp add: same_shape_def)

lemma same_shape_set_slot [simp]: "same_shape w (set_slot p x w)"
  by (auto simp: same_shape_def set_slot_def split: option.splits)

lemma same_shape_blocks: "blocks w' = blocks w \<Longrightarrow> same_shape w w'"
  by (simp add: same_shape_def)

lemma same_shape_construct_at: "construct_at p x w = (r, w') \<Longrightarrow> same_shape w w'"
  by (cases r)
     (auto simp: construct_at_Normal construct_at_Throw same_shape_def set_slot_def
           dest: construct_at_Undefined split: option.splits)

lemma same_shape_destroy_at: "destroy_at p w = (r, w') \<Longrightarrow> same_shape w w'"
  by (auto simp: destroy_at_def same_shape_def set_slot_def split: option.splits)

lemma same_shape_std_swap: "std_swap p q w = (r, w') \<Longrightarrow> same_shape w w'"
  by (auto simp: std_swap_def same_shape_def set_slot_def split: option.splits if_splits)

lemma same_shape_destroy_all_loop:
  "destroy_all_loop vec sz i w = (r, w') \<Longrightarrow> same_shape w w'"
proof (induction vec sz i w rule: destroy_all_loop.induct)
  case (1 vec sz i w)
  show ?case
  proof (cases "i < sz")
    case False
    with "1.prems" show ?thesis
      by (auto simp: destroy_all_loop_stop)
  next
    case True
    obtain r1 w1 where d: "destroy_at (ptr_add vec i) w = (r1, w1)"
      by (cases "destroy_at (ptr_add vec i) w")
    note s1 = same_shape_destroy_at [OF d]
    show ?thesis
    proof (cases r1)
      case (Normal u)
      with True d "1.prems" have "destroy_all_loop vec sz (i + 1) w1 = (r, w')"
        by (simp add: destroy_all_loop_step)
      from "1.IH" [OF True d [symmetric] Normal this] s1 show ?thesis
        by (rule same_shape_trans [rotated])
    next
      case (Throw e)
      with d show ?thesis by simp
    next
      case Undefined
      with True d "1.prems" s1 show ?thesis
        by (simp add: destroy_all_loop_step)
    qed
  qed
qed

lemma same_shape_copy_construct_loop:
  "copy_construct_loop dst src sz i w = (r, i', w') \<Longrightarrow> same_shape w w'"
proof (induction dst src sz i w rule: copy_construct_loop.induct)
  case (1 dst src sz i w)
  show ?case
  proof (cases "i < sz")
    case False
    with "1.prems" show ?thesis
      by (auto simp: copy_construct_loop_stop)
  next
    case True
    from copy_construct_loop_cases [OF True "1.prems"]
    consider "w' = w" | "w' = w\<lparr>copies := Suc (copies w)\<rparr>"
      | x where "slot w (ptr_add src (uint i)) = Some (Some x)"
          "slot w (ptr_add dst (uint i)) = Some None" "\<not> copy_fails w (copies w)"
          "copy_construct_loop dst src sz (i + 1)
              (set_slot (ptr_add dst (uint i)) (Some x)
                 (w\<lparr>copies := Suc (copies w), live := live w + 1\<rparr>)) = (r, i', w')"
      by blast
    then show ?thesis
    proof cases
      case 1
      then show ?thesis by simp
    next
      case 2
      then show ?thesis by (simp add: same_shape_blocks)
    next
      case (3 x)
      define w1 where "w1 = set_slot (ptr_add dst (uint i)) (Some x)
                 (w\<lparr>copies := Suc (copies w), live := live w + 1\<rparr>)"
      from 3 have c: "construct_at (ptr_add dst (uint i)) x w = (Normal (), w1)"
        by (simp add: construct_at_Normal w1_def)
      from 3 have rest: "copy_construct_loop dst src sz (i + 1) w1 = (r, i', w')"
        by (simp add: w1_def)
      from same_shape_construct_at [OF c] "1.IH" [OF True 3(1) refl c [symmetric] refl rest]
      show ?thesis
        by (rule same_shape_trans)
    qed
  qed
qed

lemma same_shape_copy_construct_all:
  assumes "copy_construct_all dst src sz w = (r, w')"
  shows "same_shape w w'"
proof -
  obtain r1 i1 w1 where l: "copy_construct_loop dst src sz 0 w = (r1, i1, w1)"
    by (cases "copy_construct_loop dst src sz 0 w")
  note s1 = same_shape_copy_construct_loop [OF l]
  show ?thesis
  proof (cases r1)
    case (Throw e)
    obtain r2 w2 where d: "destroy_all dst (to_int i1) w1 = (r2, w2)"
      by (cases "destroy_all dst (to_int i1) w1")
    from assms l Throw d have "w' = w2"
      by (cases r2) (simp_all add: copy_construct_all_def)
    with s1 same_shape_destroy_all_loop [OF d [unfolded destroy_all_def]] show ?thesis
      by (auto intro: same_shape_trans)
  qed (use assms l s1 in \<open>simp_all add: copy_construct_all_def\<close>)
qed

lemma int_eq_uint: "int k = uint (i::'a::len word) \<longleftrightarrow> k = unat i"
  by (metis nat_int nat_uint_eq uint_nat)

lemma slot_bound:
  assumes "heap_ok w" and "slot w p = Some y"
  shows "0 \<le> off p \<and> off p < 2 ^ 64 - 1 \<and> blk p \<noteq> 0 \<and> blk p \<le> allocs w"
proof -
  from slot_SomeD [OF assms(2)] obtain b where b: "blocks w (blk p) = Some b"
    and 1: "0 \<le> off p" "nat (off p) < length b" "blk p \<noteq> 0"
    by blast
  from assms(1) b have "length b < 2 ^ 64" "blk p \<le> allocs w"
    unfolding heap_ok_def by blast+
  with 1 show ?thesis
    by auto
qed

lemma holds_construct_end:
  assumes "construct_at (ptr_add (data_m v) (uint (size_m v))) x w = (Normal u, w')"
    and "holds v w xs" and "heap_ok w"
  shows "holds (v\<lparr>size_m := size_m v + 1\<rparr>) w' (xs @ [x]) \<and> heap_ok w'"
proof -
  let ?p = "ptr_add (data_m v) (uint (size_m v))"
  from assms(1) have raw: "slot w ?p = Some None"
    and w': "w' = set_slot ?p (Some x) (w\<lparr>copies := Suc (copies w), live := live w + 1\<rparr>)"
    by (simp_all add: construct_at_Normal)
  have len: "length xs = unat (size_m v)"
    using assms(2) by (rule holds_size)
  have "size_m v + 1 \<noteq> 0"
  proof
    assume z: "size_m v + 1 = 0"
    then have m: "size_m v = - 1"
      by (simp add: add_eq_0_iff2)
    then have u: "unat (size_m v) = 2 ^ 64 - 1"
      by (simp add: unsigned_minus_1_eq_mask mask_eq_exp_minus_1)
    then have "xs \<noteq> []"
      using len by auto
    with assms(2) have "slot w (ptr_add (data_m v) (int 0)) = Some (Some (xs ! 0))"
      unfolding holds_iff by blast
    from slot_SomeD [OF this] have "0 \<le> off (data_m v)"
      by auto
    moreover from slot_bound [OF assms(3) raw] have "off (data_m v) + uint (size_m v) < 2 ^ 64 - 1"
      by simp
    moreover from u have "uint (size_m v) = 2 ^ 64 - 1"
      by (simp add: uint_nat)
    ultimately show False
      by simp
  qed
  then have suc: "unat (size_m v + 1) = Suc (unat (size_m v))"
    by (metis add.commute unatSuc)
  have slot': "slot w' q = (if q = ?p then Some (Some x) else slot w q)" for q
    by (simp add: w' slot_set_slot raw)
  have "holds (v\<lparr>size_m := size_m v + 1\<rparr>) w' (xs @ [x])"
    unfolding holds_iff
  proof (intro conjI allI impI)
    show "length (xs @ [x]) = unat (size_m (v\<lparr>size_m := size_m v + 1\<rparr>))"
      by (simp add: len suc)
  next
    fix i assume "i < length (xs @ [x])"
    then consider "i < length xs" | "i = length xs"
      by fastforce
    then show "slot w' (ptr_add (data_m (v\<lparr>size_m := size_m v + 1\<rparr>)) (int i)) = Some (Some ((xs @ [x]) ! i))"
    proof cases
      case 1
      then have "int i \<noteq> uint (size_m v)"
        using len by (simp add: int_eq_uint)
      with 1 assms(2) show ?thesis
        by (simp add: slot' holds_iff nth_append)
    next
      case 2
      then have "int i = uint (size_m v)"
        using len by (simp add: int_eq_uint)
      with 2 show ?thesis
        by (simp add: slot')
    qed
  qed
  moreover from assms(3) have "heap_ok w'"
    by (simp add: w')
  ultimately show ?thesis ..
qed




lemma copy_T_Normal:
  "copy_T x w = (Normal y, w') \<longleftrightarrow>
     \<not> copy_fails w (copies w) \<and> y = x \<and> w' = w\<lparr>copies := Suc (copies w), live := live w + 1\<rparr>"
  by (auto simp: copy_T_def)

lemma copy_T_Throw:
  "copy_T x w = (Throw e, w') \<longleftrightarrow>
     copy_fails w (copies w) \<and> e = ElementOperationFailure \<and> w' = w\<lparr>copies := Suc (copies w)\<rparr>"
  by (auto simp: copy_T_def)

lemma copy_T_Undefined [simp]: "copy_T x w \<noteq> (Undefined, w')"
  by (auto simp: copy_T_def)

lemma holds_update_simps [simp]:
  "holds v (w\<lparr>allocs := a\<rparr>) xs = holds v w xs"
  "holds v (w\<lparr>copies := c\<rparr>) xs = holds v w xs"
  "holds v (w\<lparr>swaps := s\<rparr>) xs = holds v w xs"
  "holds v (w\<lparr>live := l\<rparr>) xs = holds v w xs"
  "holds v (destroy_local w) xs = holds v w xs"
  by (simp_all add: holds_iff destroy_local_def)

lemma heap_ok_destroy_local [simp]: "heap_ok (destroy_local w) = heap_ok w"
  by (simp add: destroy_local_def)

lemma slot_null [simp]: "slot w (Ptr 0 i) = None"
  by (simp add: slot_def)

lemma construct_at_null:
  "construct_at (ptr_add nullptr i) x w = (Undefined, w)"
  by (simp add: construct_at_def nullptr_def ptr_add_def)

lemma new_buffer_zero:
  "new_buffer 0 this w = (r, this', w') \<Longrightarrow> this' = vector_ctor"
  by (auto simp: new_buffer_unfold split: prod.splits)

lemma push_back_realloc_Normal:
  assumes "push_back_realloc val this w = (Normal u, this', w')"
    and "holds this w xs" and "heap_ok w"
  shows "holds this' w' (xs @ [val]) \<and> heap_ok w' \<and> size_m this' = size_m this + 1 \<and>
         capacity_m this' = increase_capacity this"
proof -
  define w1 where "w1 = w\<lparr>copies := Suc (copies w), live := live w + 1\<rparr>"
  obtain r0 w0 where t: "copy_T val w = (r0, w0)"
    by (cases "copy_T val w")
  with assms(1) have "r0 = Normal val \<and> w0 = w1"
    by (cases r0) (auto simp: push_back_realloc_def copy_T_def w1_def split: if_splits)
  with t have t: "copy_T val w = (Normal val, w1)"
    by simp
  obtain r2 this1 w2 where nb: "new_buffer (increase_capacity this) this w1 = (r2, this1, w2)"
    by (cases "new_buffer (increase_capacity this) this w1")
  with assms(1) t have r2: "r2 = Normal ()"
    by (cases r2) (simp_all add: push_back_realloc_def)
  obtain r3 w3 where c: "construct_at (ptr_add (data_m this1) (uint (size_m this1))) val w2 = (r3, w3)"
    by (cases "construct_at (ptr_add (data_m this1) (uint (size_m this1))) val w2")
  with assms(1) t nb r2 have r3: "r3 = Normal ()" and this': "this' = this1\<lparr>size_m := size_m this1 + 1\<rparr>"
    and w': "w' = destroy_local w3"
    by (cases r3; simp add: push_back_realloc_def)+
  have ne: "increase_capacity this \<noteq> 0"
  proof
    assume "increase_capacity this = 0"
    with nb have "this1 = vector_ctor"
      by (auto dest: new_buffer_zero)
    with c r3 construct_at_null [of 0 val w2] show False
      by (simp add: vector_ctor_def)
  qed
  from assms(2,3) have "holds this w1 xs" "heap_ok w1"
    by (simp_all add: w1_def)
  from new_buffer_Normal [OF nb [unfolded r2] ne this]
  have this1: "size_m this1 = size_m this" "capacity_m this1 = increase_capacity this"
    and h2: "holds this1 w2 xs" "heap_ok w2"
    by auto
  from holds_construct_end [OF c [unfolded r3] h2] this1 show ?thesis
    by (simp add: this' w')
qed

lemma push_back_Normal:
  assumes "push_back val this w = (Normal u, this', w')"
    and "holds this w xs" and "heap_ok w"
  shows "holds this' w' (xs @ [val]) \<and> heap_ok w' \<and> size_m this' = size_m this + 1 \<and>
         capacity_m this' =
           (if size_m this = capacity_m this then increase_capacity this else capacity_m this)"
proof (cases "size_m this = capacity_m this")
  case True
  with assms(1) have "push_back_realloc val this w = (Normal u, this', w')"
    by (simp add: push_back_def)
  from push_back_realloc_Normal [OF this assms(2,3)] True show ?thesis
    by simp
next
  case False
  obtain r1 w1 where c: "construct_at (ptr_add (data_m this) (uint (size_m this))) val w = (r1, w1)"
    by (cases "construct_at (ptr_add (data_m this) (uint (size_m this))) val w")
  with assms(1) False have r1: "r1 = Normal ()" and this': "this' = this\<lparr>size_m := size_m this + 1\<rparr>"
    and w': "w' = w1"
    by (cases r1; simp add: push_back_def)+
  from holds_construct_end [OF c [unfolded r1] assms(2,3)] False show ?thesis
    by (simp add: this' w')
qed



section \<open>push_back\<close>

lemma new_buffer_NormalD:
  assumes "new_buffer n this w = (Normal u, this', w')" and "n \<noteq> 0"
  shows "\<exists>w2. copy_construct_all (Ptr (Suc (allocs w)) 0) (data_m this) (size_m this)
             (w\<lparr>allocs := Suc (allocs w),
                blocks := (blocks w)(Suc (allocs w) \<mapsto>
                  replicate (unat (n * sizeof_T w) div unat (sizeof_T w)) None)\<rparr>) = (Normal (), w2) \<and>
           vector_dtor this w2 = (Normal u, w') \<and>
           this' = \<lparr>data_m = Ptr (Suc (allocs w)) 0, size_m = size_m this, capacity_m = n\<rparr>"
proof -
  define p where "p = Ptr (Suc (allocs w)) 0"
  define w1 where "w1 = w\<lparr>allocs := Suc (allocs w),
            blocks := (blocks w)(Suc (allocs w) \<mapsto> replicate (unat (n * sizeof_T w) div unat (sizeof_T w)) None)\<rparr>"
  obtain r1 w1' where a: "operator_new (n * sizeof_T w) w = (r1, w1')"
    by (cases "operator_new (n * sizeof_T w) w")
  from a assms(1,2) obtain p' where r1: "r1 = Normal p'"
    by (cases r1) (simp_all add: new_buffer_unfold)
  with a have a': "operator_new (n * sizeof_T w) w = (Normal p, w1)"
    by (simp add: operator_new_Normal p_def w1_def)
  obtain r2 w2 where b0: "copy_construct_all p (data_m this) (size_m this) w1 = (r2, w2)"
    by (cases "copy_construct_all p (data_m this) (size_m this) w1")
  have r2: "r2 = Normal ()"
  proof (cases r2)
    case (Throw e)
    obtain r3 w3 where "operator_delete p w2 = (r3, w3)"
      by (cases "operator_delete p w2")
    with a' b0 Throw assms(1,2) show ?thesis
      by (cases r3) (simp_all add: new_buffer_unfold)
  qed (use a' b0 assms(1,2) in \<open>simp_all add: new_buffer_unfold\<close>)
  with b0 have b: "copy_construct_all p (data_m this) (size_m this) w1 = (Normal (), w2)"
    by simp
  obtain r3 w3 where c0: "vector_dtor this w2 = (r3, w3)"
    by (cases "vector_dtor this w2")
  with a' b assms(1,2) have c: "vector_dtor this w2 = (Normal u, w')"
    and this': "this' = \<lparr>data_m = p, size_m = size_m this, capacity_m = n\<rparr>"
    by (simp_all add: new_buffer_unfold)
  with b show ?thesis
    unfolding p_def w1_def by blast
qed

lemma vector_dtor_blocks:
  assumes "vector_dtor v w = (r, w')" and "blocks w' c = Some b'"
  shows "\<exists>b. blocks w c = Some b \<and> length b = length b'"
proof -
  obtain r1 w1 where d: "destroy_all (data_m v) (to_int (size_m v)) w = (r1, w1)"
    by (cases "destroy_all (data_m v) (to_int (size_m v)) w")
  from same_shape_destroy_all_loop [OF d [unfolded destroy_all_def]]
  have s1: "map_option length (blocks w1 c) = map_option length (blocks w c)"
    by (simp add: same_shape_def)
  have "blocks w' c = blocks w1 c \<or> blocks w' c = None"
  proof (cases r1)
    case (Normal u)
    with assms(1) d have "operator_delete (data_m v) w1 = (r, w')"
      by (simp add: vector_dtor_def)
    then show ?thesis
      by (auto simp: operator_delete_def split: if_splits)
  qed (use assms(1) d in \<open>auto simp: vector_dtor_def\<close>)
  with assms(2) s1 show ?thesis
    by (cases "blocks w c") auto
qed

lemma new_buffer_block:
  assumes "new_buffer n this w = (Normal u, this', w')" and "n \<noteq> 0"
    and "blocks w' (Suc (allocs w)) = Some b'"
  shows "length b' = unat (n * sizeof_T w) div unat (sizeof_T w)"
proof -
  from new_buffer_NormalD [OF assms(1,2)] obtain w2 where
    b: "copy_construct_all (Ptr (Suc (allocs w)) 0) (data_m this) (size_m this)
             (w\<lparr>allocs := Suc (allocs w),
                blocks := (blocks w)(Suc (allocs w) \<mapsto>
                  replicate (unat (n * sizeof_T w) div unat (sizeof_T w)) None)\<rparr>) = (Normal (), w2)"
    and c: "vector_dtor this w2 = (Normal u, w')"
    by blast
  from vector_dtor_blocks [OF c assms(3)] obtain b2 where
    "blocks w2 (Suc (allocs w)) = Some b2" "length b2 = length b'"
    by blast
  with same_shape_copy_construct_all [OF b] show ?thesis
    by (auto simp: same_shape_def dest!: spec [of _ "Suc (allocs w)"])
qed

lemma unat_mult_div_le: "unat (n * s) div unat s \<le> unat (n :: 'a::len word)"
proof (cases "unat s = 0")
  case True
  then show ?thesis by simp
next
  case False
  have "unat (n * s) \<le> unat n * unat s"
    by (simp add: unat_word_ariths)
  then have "unat (n * s) div unat s \<le> unat n * unat s div unat s"
    by (rule div_le_mono)
  with False show ?thesis
    by simp
qed


lemma slot_end_null [simp]: "slot w (end_vec vector_ctor) = None"
  by (simp add: end_vec_def vector_ctor_def nullptr_def ptr_add_def)

text \<open>
  C8. \<open>push_back\<close> on a vector whose length equals its capacity works in three
  steps, each of which may throw. It copies the value into a local first; if that
  throws, nothing has changed. It then moves the elements to a new buffer of capacity
  \<open>increase_capacity\<close>; if that throws, the vector, its buffer and its elements are as
  before. It then constructs the local copy in the next slot of the new buffer; if that
  throws, the vector keeps the new capacity, which is larger than the old one, and has
  the length and the elements it had before the call. If nothing throws, the value is
  the new last element.
\<close>

theorem push_back_at_capacity:
  assumes "size_vec this = capacity this" and "holds this w xs" and "heap_ok w"
  shows
    "(\<forall>e w1. copy_T val w = (Throw e, w1) \<longrightarrow>
        push_back val this w = (Throw e, this, w1) \<and> holds this w1 xs) \<and>
     (\<forall>tmp w1 e this1 w2.
        copy_T val w = (Normal tmp, w1) \<and>
        new_buffer (increase_capacity this) this w1 = (Throw e, this1, w2) \<longrightarrow>
        push_back val this w = (Throw e, this, destroy_local w2) \<and>
        holds this (destroy_local w2) xs) \<and>
     (\<forall>tmp w1 u this1 w2 e w3.
        copy_T val w = (Normal tmp, w1) \<and>
        new_buffer (increase_capacity this) this w1 = (Normal u, this1, w2) \<and>
        construct_at (end_vec this1) tmp w2 = (Throw e, w3) \<longrightarrow>
        push_back val this w = (Throw e, this1, destroy_local w3) \<and>
        capacity this1 = increase_capacity this \<and> capacity this < capacity this1 \<and>
        size_vec this1 = size_vec this \<and> holds this1 (destroy_local w3) xs) \<and>
     (\<forall>tmp w1 u this1 w2 u' w3.
        copy_T val w = (Normal tmp, w1) \<and>
        new_buffer (increase_capacity this) this w1 = (Normal u, this1, w2) \<and>
        construct_at (end_vec this1) tmp w2 = (Normal u', w3) \<longrightarrow>
        push_back val this w = (Normal (), this1\<lparr>size_m := size_m this1 + 1\<rparr>, destroy_local w3) \<and>
        capacity this1 = increase_capacity this \<and>
        holds (this1\<lparr>size_m := size_m this1 + 1\<rparr>) (destroy_local w3) (xs @ [val]))"
proof (intro conjI allI impI; (elim conjE)?)
  from assms(1) have full: "size_m this = capacity_m this"
    by (simp add: size_vec_def capacity_def)
  then have pb: "push_back val this w = push_back_realloc val this w"
    by (simp add: push_back_def)
  {
    fix e w1 assume t: "copy_T val w = (Throw e, w1)"
    then show "push_back val this w = (Throw e, this, w1)"
      by (simp add: pb push_back_realloc_def)
    from t assms(2) show "holds this w1 xs"
      by (simp add: copy_T_Throw)
  }
  {
    fix tmp w1 assume t: "copy_T val w = (Normal tmp, w1)"
    then have tmp: "tmp = val" and w1: "w1 = w\<lparr>copies := Suc (copies w), live := live w + 1\<rparr>"
      by (simp_all add: copy_T_Normal)
    from assms(2,3) have h1: "holds this w1 xs" "heap_ok w1"
      by (simp_all add: w1)
    {
      fix e this1 w2
      assume nb: "new_buffer (increase_capacity this) this w1 = (Throw e, this1, w2)"
      from new_buffer_Throw [OF nb h1] have this1: "this1 = this" and h2: "holds this w2 xs"
        by simp_all
      from t nb this1 show "push_back val this w = (Throw e, this, destroy_local w2)"
        by (simp add: pb push_back_realloc_def)
      from h2 show "holds this (destroy_local w2) xs"
        by simp
    }
    {
      fix u this1 w2 r3 w3
      assume nb: "new_buffer (increase_capacity this) this w1 = (Normal u, this1, w2)"
        and c: "construct_at (end_vec this1) tmp w2 = (r3, w3)" and r3: "r3 \<noteq> Undefined"
      from c r3 have raw: "slot w2 (end_vec this1) = Some None"
        by (cases r3) (simp_all add: construct_at_Normal construct_at_Throw)
      have ne: "increase_capacity this \<noteq> 0"
      proof
        assume "increase_capacity this = 0"
        with nb have "this1 = vector_ctor"
          by (auto dest: new_buffer_zero)
        with raw show False
          by simp
      qed
      from new_buffer_Normal [OF nb ne h1]
      have this1: "this1 = \<lparr>data_m = Ptr (Suc (allocs w1)) 0, size_m = size_m this,
              capacity_m = increase_capacity this\<rparr>"
        and h2: "holds this1 w2 xs" "heap_ok w2"
        by auto
      from slot_SomeD [OF raw] obtain b' where
        b': "blocks w2 (Suc (allocs w1)) = Some b'" and "nat (uint (size_m this)) < length b'"
        by (auto simp: this1 end_vec_def)
      with new_buffer_block [OF nb ne b']
      have "unat (size_m this) < unat (increase_capacity this * sizeof_T w1) div unat (sizeof_T w1)"
        by simp
      also have "\<dots> \<le> unat (increase_capacity this)"
        by (rule unat_mult_div_le)
      finally have larger: "capacity_m this < increase_capacity this"
        by (simp add: full word_less_nat_alt)
      note this1 h2 larger
    }
    note grown = this
    {
      fix u this1 w2 e w3
      assume nb: "new_buffer (increase_capacity this) this w1 = (Normal u, this1, w2)"
        and c: "construct_at (end_vec this1) tmp w2 = (Throw e, w3)"
      from grown [OF nb c] have this1: "this1 = \<lparr>data_m = Ptr (Suc (allocs w1)) 0,
           size_m = size_m this, capacity_m = increase_capacity this\<rparr>"
        and h2: "holds this1 w2 xs" and larger: "capacity_m this < increase_capacity this"
        by simp_all
      from t nb c show "push_back val this w = (Throw e, this1, destroy_local w3)"
        by (simp add: pb push_back_realloc_def end_vec_def)
      from this1 show "capacity this1 = increase_capacity this" "size_vec this1 = size_vec this"
        by (simp_all add: capacity_def size_vec_def)
      from this1 larger show "capacity this < capacity this1"
        by (simp add: capacity_def)
      from c h2 show "holds this1 (destroy_local w3) xs"
        by (simp add: construct_at_Throw)
    }
    {
      fix u this1 w2 u' w3
      assume nb: "new_buffer (increase_capacity this) this w1 = (Normal u, this1, w2)"
        and c: "construct_at (end_vec this1) tmp w2 = (Normal u', w3)"
      from grown [OF nb c] have this1: "this1 = \<lparr>data_m = Ptr (Suc (allocs w1)) 0,
           size_m = size_m this, capacity_m = increase_capacity this\<rparr>"
        and h2: "holds this1 w2 xs" "heap_ok w2"
        by simp_all
      from t nb c show "push_back val this w =
          (Normal (), this1\<lparr>size_m := size_m this1 + 1\<rparr>, destroy_local w3)"
        by (simp add: pb push_back_realloc_def end_vec_def)
      from this1 show "capacity this1 = increase_capacity this"
        by (simp add: capacity_def)
      from holds_construct_end [OF c [unfolded end_vec_def tmp] h2]
      show "holds (this1\<lparr>size_m := size_m this1 + 1\<rparr>) (destroy_local w3) (xs @ [val])"
        by simp
    }
  }
qed


lemma push_back_all_ConsD:
  assumes "push_back_all (x # xs) this w = (Normal cs, this', w')"
  shows "\<exists>this1 w1 cs'. push_back x this w = (Normal (), this1, w1) \<and>
           push_back_all xs this1 w1 = (Normal cs', this', w') \<and> cs = capacity this1 # cs'"
proof -
  obtain r1 this1 w1 where p: "push_back x this w = (r1, this1, w1)"
    by (cases "push_back x this w")
  obtain r2 this2 w2 where q: "push_back_all xs this1 w1 = (r2, this2, w2)"
    by (cases "push_back_all xs this1 w1")
  from assms p have r1: "r1 = Normal ()"
    by (cases r1) simp_all
  with assms p q obtain cs' where "r2 = Normal cs'"
    by (cases r2) simp_all
  with assms p q r1 show ?thesis
    by simp
qed

lemma holds_vector_ctor [simp]: "holds vector_ctor w []"
  by (simp add: holds_iff vector_ctor_def)

text \<open>
  C3. Five values pushed in order into a default-constructed vector, each push
  returning normally: the capacities after the pushes are 1, 2, 4, 4 and 8, the length
  is 5, and the vector holds the five values in the order pushed.
\<close>

theorem growth_sequence:
  assumes "push_back_all [x1, x2, x3, x4, x5] vector_ctor w = (Normal cs, this', w')"
    and "heap_ok w"
  shows "cs = [1, 2, 4, 4, 8] \<and> size_vec this' = 5 \<and> holds this' w' [x1, x2, x3, x4, x5]"
proof -
  from push_back_all_ConsD [OF assms(1)] obtain v1 w1 cs1 where
    p1: "push_back x1 vector_ctor w = (Normal (), v1, w1)" and
    r1: "push_back_all [x2, x3, x4, x5] v1 w1 = (Normal cs1, this', w')" and c1: "cs = capacity v1 # cs1"
    by blast
  from push_back_all_ConsD [OF r1] obtain v2 w2 cs2 where
    p2: "push_back x2 v1 w1 = (Normal (), v2, w2)" and
    r2: "push_back_all [x3, x4, x5] v2 w2 = (Normal cs2, this', w')" and c2: "cs1 = capacity v2 # cs2"
    by blast
  from push_back_all_ConsD [OF r2] obtain v3 w3 cs3 where
    p3: "push_back x3 v2 w2 = (Normal (), v3, w3)" and
    r3: "push_back_all [x4, x5] v3 w3 = (Normal cs3, this', w')" and c3: "cs2 = capacity v3 # cs3"
    by blast
  from push_back_all_ConsD [OF r3] obtain v4 w4 cs4 where
    p4: "push_back x4 v3 w3 = (Normal (), v4, w4)" and
    r4: "push_back_all [x5] v4 w4 = (Normal cs4, this', w')" and c4: "cs3 = capacity v4 # cs4"
    by blast
  from push_back_all_ConsD [OF r4] obtain v5 w5 cs5 where
    p5: "push_back x5 v4 w4 = (Normal (), v5, w5)" and
    r5: "push_back_all [] v5 w5 = (Normal cs5, this', w')" and c5: "cs4 = capacity v5 # cs5"
    by blast
  from r5 have e: "cs5 = []" "this' = v5" "w' = w5"
    by simp_all
  from push_back_Normal [OF p1 holds_vector_ctor assms(2)]
  have s1: "holds v1 w1 [x1]" "heap_ok w1" "size_m v1 = 1" "capacity_m v1 = 1"
    by (simp_all add: vector_ctor_def increase_capacity_def)
  from push_back_Normal [OF p2 s1(1,2)]
  have s2: "holds v2 w2 [x1, x2]" "heap_ok w2" "size_m v2 = 2" "capacity_m v2 = 2"
    by (simp_all add: s1 increase_capacity_def)
  from push_back_Normal [OF p3 s2(1,2)]
  have s3: "holds v3 w3 [x1, x2, x3]" "heap_ok w3" "size_m v3 = 3" "capacity_m v3 = 4"
    by (simp_all add: s2 increase_capacity_def)
  from push_back_Normal [OF p4 s3(1,2)]
  have s4: "holds v4 w4 [x1, x2, x3, x4]" "heap_ok w4" "size_m v4 = 4" "capacity_m v4 = 4"
    by (simp_all add: s3 increase_capacity_def)
  from push_back_Normal [OF p5 s4(1,2)]
  have s5: "holds v5 w5 [x1, x2, x3, x4, x5]" "heap_ok w5" "size_m v5 = 5" "capacity_m v5 = 8"
    by (simp_all add: s4 increase_capacity_def)
  from s1 s2 s3 s4 s5 show ?thesis
    by (simp add: c1 c2 c3 c4 c5 e capacity_def size_vec_def)
qed

theorem growth_sequence_witness:
  "fst (push_back_all [10, 20, 30, 40, 50::int] vector_ctor (fresh_world (\<lambda>i. False) (\<lambda>i. False)))
     = Normal [1, 2, 4, 4, 8] \<and>
   size_vec (fst (snd (push_back_all [10, 20, 30, 40, 50::int] vector_ctor
     (fresh_world (\<lambda>i. False) (\<lambda>i. False))))) = 5 \<and>
   holds (fst (snd (push_back_all [10, 20, 30, 40, 50::int] vector_ctor
            (fresh_world (\<lambda>i. False) (\<lambda>i. False)))))
         (snd (snd (push_back_all [10, 20, 30, 40, 50::int] vector_ctor
            (fresh_world (\<lambda>i. False) (\<lambda>i. False)))))
         [10, 20, 30, 40, 50]"
proof -
  let ?run = "push_back_all [10, 20, 30, 40, 50::int] vector_ctor (fresh_world (\<lambda>i. False) (\<lambda>i. False))"
  have r: "fst ?run = Normal [1, 2, 4, 4, 8]"
    by code_simp
  then have run: "?run = (Normal [1, 2, 4, 4, 8], fst (snd ?run), snd (snd ?run))"
    by (metis prod.collapse)
  have ok: "heap_ok (fresh_world (\<lambda>i. False) (\<lambda>i. False) :: int world)"
    by (simp add: heap_ok_def fresh_world_def)
  from growth_sequence [OF run ok] r show ?thesis
    by blast
qed


theorem push_back_at_capacity_witness:
  "fst (push_back 7 \<lparr>data_m = Ptr 1 0, size_m = 2, capacity_m = 2\<rparr>
          (one_block [Some 1, Some (2::int)] (\<lambda>i. False) (\<lambda>i. i = 3)))
     = Throw ElementOperationFailure \<and>
   capacity (fst (snd (push_back 7 \<lparr>data_m = Ptr 1 0, size_m = 2, capacity_m = 2\<rparr>
          (one_block [Some 1, Some (2::int)] (\<lambda>i. False) (\<lambda>i. i = 3))))) = 4 \<and>
   size_vec (fst (snd (push_back 7 \<lparr>data_m = Ptr 1 0, size_m = 2, capacity_m = 2\<rparr>
          (one_block [Some 1, Some (2::int)] (\<lambda>i. False) (\<lambda>i. i = 3))))) = 2 \<and>
   holds (fst (snd (push_back 7 \<lparr>data_m = Ptr 1 0, size_m = 2, capacity_m = 2\<rparr>
          (one_block [Some 1, Some (2::int)] (\<lambda>i. False) (\<lambda>i. i = 3)))))
     (snd (snd (push_back 7 \<lparr>data_m = Ptr 1 0, size_m = 2, capacity_m = 2\<rparr>
          (one_block [Some 1, Some (2::int)] (\<lambda>i. False) (\<lambda>i. i = 3)))))
     [1, 2]"
proof -
  let ?v = "\<lparr>data_m = Ptr 1 0, size_m = 2, capacity_m = 2\<rparr>"
  let ?w = "one_block [Some 1, Some (2::int)] (\<lambda>i. False) (\<lambda>i. i = 3)"
  let ?w1 = "snd (copy_T 7 ?w)"
  let ?nb = "new_buffer (increase_capacity ?v) ?v ?w1"
  let ?v1 = "fst (snd ?nb)"
  let ?w2 = "snd (snd ?nb)"
  let ?c = "construct_at (end_vec ?v1) 7 ?w2"
  have "fst (copy_T 7 ?w) = Normal 7"
    by code_simp
  then have a: "copy_T 7 ?w = (Normal 7, ?w1)"
    by (metis prod.collapse)
  have "fst ?nb = Normal ()"
    by code_simp
  then have b: "?nb = (Normal (), ?v1, ?w2)"
    by (metis prod.collapse)
  have "fst ?c = Throw ElementOperationFailure"
    by code_simp
  then have c: "?c = (Throw ElementOperationFailure, snd ?c)"
    by (metis prod.collapse)
  have full: "size_vec ?v = capacity ?v"
    by (simp add: size_vec_def capacity_def)
  have h: "holds ?v ?w [1, 2]"
    by code_simp
  have ok: "heap_ok ?w"
    by (simp add: heap_ok_def one_block_def)
  from push_back_at_capacity [OF full h ok, of 7] a b c
  have "push_back 7 ?v ?w = (Throw ElementOperationFailure, ?v1, destroy_local (snd ?c)) \<and>
        capacity ?v1 = increase_capacity ?v \<and> capacity ?v < capacity ?v1 \<and>
        size_vec ?v1 = size_vec ?v \<and> holds ?v1 (destroy_local (snd ?c)) [1, 2]"
    by blast
  then show ?thesis
    by (simp add: increase_capacity_def size_vec_def)
qed


section \<open>erase\<close>


lemma erase_range_loop_step:
  "j \<noteq> end_vec this \<Longrightarrow> erase_range_loop i j this w =
     (case std_swap i j w of
        (Normal u, w1) \<Rightarrow> erase_range_loop (ptr_add i 1) (ptr_add j 1) this w1
      | (Throw e, w1) \<Rightarrow> (Throw e, w1)
      | (Undefined, w1) \<Rightarrow> (Undefined, w1))"
  by (subst erase_range_loop.simps) simp

lemma erase_range_loop_stop:
  "j = end_vec this \<Longrightarrow> erase_range_loop i j this w = (Normal (), w)"
  by (subst erase_range_loop.simps) simp

lemma std_swap_slot:
  assumes "std_swap p q w = (Normal u, w')"
  shows "slot w' r = (if r = q then slot w p else if r = p then slot w q else slot w r)"
proof -
  from assms obtain x y where p: "slot w p = Some (Some x)" and q: "slot w q = Some (Some y)"
    and w': "w' = set_slot q (Some x) (set_slot p (Some y) (w\<lparr>swaps := Suc (swaps w)\<rparr>))"
    by (auto simp: std_swap_Normal)
  show ?thesis
    by (auto simp: w' slot_set_slot p q)
qed

lemma erase_range_loop_Normal:
  "erase_range_loop i j this w = (Normal u, w') \<Longrightarrow> blk i = blk j \<Longrightarrow> off i \<le> off j \<Longrightarrow>
     (\<forall>q. blk q \<noteq> blk i \<or> off q < off i \<longrightarrow> slot w' q = slot w q) \<and>
     (\<forall>t. off j + int t < off (end_vec this) \<longrightarrow> slot w' (ptr_add i (int t)) = slot w (ptr_add j (int t))) \<and>
     (\<forall>q. (\<exists>x. slot w' q = Some (Some x)) \<longleftrightarrow> (\<exists>x. slot w q = Some (Some x)))"
proof (induction i j this w rule: erase_range_loop.induct)
  case (1 i j this w)
  show ?case
  proof (cases "j = end_vec this")
    case True
    with "1.prems" show ?thesis
      by (auto simp: erase_range_loop_stop)
  next
    case False
    obtain r1 w1 where s: "std_swap i j w = (r1, w1)"
      by (cases "std_swap i j w")
    with False "1.prems"(1) have r1: "r1 = Normal ()"
      and rest: "erase_range_loop (ptr_add i 1) (ptr_add j 1) this w1 = (Normal u, w')"
      by (cases r1; simp add: erase_range_loop_step)+
    note sw = std_swap_slot [OF s [unfolded r1]]
    from s r1 obtain x y where li: "slot w i = Some (Some x)" and lj: "slot w j = Some (Some y)"
      by (auto simp: std_swap_Normal)
    from "1.IH" [OF False s [symmetric] r1 rest] "1.prems"(2,3)
    have A1: "\<forall>q. blk q \<noteq> blk i \<or> off q < off i + 1 \<longrightarrow> slot w' q = slot w1 q"
      and B1: "\<forall>t. off j + 1 + int t < off (end_vec this) \<longrightarrow>
          slot w' (ptr_add i (1 + int t)) = slot w1 (ptr_add j (1 + int t))"
      and C1: "\<forall>q. (\<exists>x. slot w' q = Some (Some x)) \<longleftrightarrow> (\<exists>x. slot w1 q = Some (Some x))"
      by simp_all
    have ij: "i = j \<Longrightarrow> slot w i = slot w j"
      by simp
    show ?thesis
    proof (intro conjI allI impI)
      fix q assume q: "blk q \<noteq> blk i \<or> off q < off i"
      then have "q \<noteq> i" "q \<noteq> j"
        using "1.prems"(2,3) by auto
      with q A1 show "slot w' q = slot w q"
        by (auto simp: sw)
    next
      fix t assume t: "off j + int t < off (end_vec this)"
      show "slot w' (ptr_add i (int t)) = slot w (ptr_add j (int t))"
      proof (cases t)
        case 0
        have "slot w' i = slot w1 i"
          using A1 by simp
        also have "\<dots> = slot w j"
          using ij by (simp add: sw)
        finally show ?thesis
          using 0 by simp
      next
        case (Suc t')
        with t have "off j + 1 + int t' < off (end_vec this)"
          by simp
        with B1 have "slot w' (ptr_add i (1 + int t')) = slot w1 (ptr_add j (1 + int t'))"
          by blast
        moreover have "ptr_add j (1 + int t') \<noteq> j" "ptr_add j (1 + int t') \<noteq> i"
          using "1.prems"(2,3) by (auto simp: ptr_add_def ptr.expand dest: arg_cong [of _ _ off])
        ultimately show ?thesis
          using Suc by (simp add: sw add.commute)
      qed
    next
      fix q
      show "(\<exists>x. slot w' q = Some (Some x)) \<longleftrightarrow> (\<exists>x. slot w q = Some (Some x))"
        using C1 li lj by (auto simp: sw split: if_splits)
    qed
  qed
qed


lemma erase_range_pops_step:
  "i < n \<Longrightarrow> erase_range_pops i n this w =
     (case pop_back this w of
        (Normal u, this1, w1) \<Rightarrow> erase_range_pops (i + 1) n this1 w1
      | (Throw e, this1, w1) \<Rightarrow> (Throw e, this1, w1)
      | (Undefined, this1, w1) \<Rightarrow> (Undefined, this1, w1))"
  by (subst erase_range_pops.simps) simp

lemma erase_range_pops_stop:
  "\<not> i < n \<Longrightarrow> erase_range_pops i n this w = (Normal (), this, w)"
  by (subst erase_range_pops.simps) simp

lemma pop_back_cases:
  assumes "pop_back this w = (r, this', w')"
  shows "(r = Undefined \<and> this' = this \<and> w' = w) \<or>
         (r = Normal () \<and> this' = this\<lparr>size_m := size_m this - 1\<rparr> \<and>
          (\<exists>x. slot w (ptr_add (data_m this) (uint (size_m this - 1))) = Some (Some x)) \<and>
          w' = (set_slot (ptr_add (data_m this) (uint (size_m this - 1))) None w)\<lparr>live := live w - 1\<rparr>)"
proof -
  obtain r1 w1 where d: "destroy_at (ptr_add (data_m this) (uint (size_m this - 1))) w = (r1, w1)"
    by (cases "destroy_at (ptr_add (data_m this) (uint (size_m this - 1))) w")
  show ?thesis
  proof (cases r1)
    case (Normal u)
    with d assms have "r = Normal ()" "this' = this\<lparr>size_m := size_m this - 1\<rparr>" "w' = w1"
      by (simp_all add: pop_back_def)
    moreover from d Normal have "\<exists>x. slot w (ptr_add (data_m this) (uint (size_m this - 1))) = Some (Some x)"
      "w1 = (set_slot (ptr_add (data_m this) (uint (size_m this - 1))) None w)\<lparr>live := live w - 1\<rparr>"
      by (simp_all add: destroy_at_Normal)
    ultimately show ?thesis
      by simp
  next
    case (Throw e)
    with d show ?thesis
      by simp
  next
    case Undefined
    with d assms have "r = Undefined" "this' = this" "w' = w1"
      by (simp_all add: pop_back_def)
    moreover from d Undefined have "w1 = w"
      by (auto simp: destroy_at_def split: option.splits)
    ultimately show ?thesis
      by simp
  qed
qed

lemma pop_back_Normal:
  assumes "pop_back this w = (Normal u, this', w')" and "holds this w ys" and "ys \<noteq> []"
  shows "this' = this\<lparr>size_m := size_m this - 1\<rparr> \<and> holds this' w' (butlast ys)"
proof -
  let ?p = "ptr_add (data_m this) (uint (size_m this - 1))"
  from pop_back_cases [OF assms(1)] obtain x where
    this': "this' = this\<lparr>size_m := size_m this - 1\<rparr>" and
    l: "slot w ?p = Some (Some x)" and
    w': "w' = (set_slot ?p None w)\<lparr>live := live w - 1\<rparr>"
    by auto
  from assms(2) have len: "length ys = unat (size_m this)"
    by (rule holds_size)
  with assms(3) have "size_m this \<noteq> 0"
    by auto
  then have m: "unat (size_m this - 1) = unat (size_m this) - 1"
    by (simp add: unat_minus_one)
  have slot': "slot w' q = (if q = ?p then Some None else slot w q)" for q
    by (simp add: w' slot_set_slot l)
  have "holds this' w' (butlast ys)"
    unfolding holds_iff
  proof (intro conjI allI impI)
    show "length (butlast ys) = unat (size_m this')"
      by (simp add: this' len m)
  next
    fix i assume i: "i < length (butlast ys)"
    then have "int i \<noteq> uint (size_m this - 1)"
      by (simp add: int_eq_uint m len)
    with i assms(2) show "slot w' (ptr_add (data_m this') (int i)) = Some (Some (butlast ys ! i))"
      by (simp add: slot' this' holds_iff nth_butlast)
  qed
  with this' show ?thesis
    by simp
qed

lemma erase_range_pops_data:
  "erase_range_pops i n this w = (r, this', w') \<Longrightarrow>
     data_m this' = data_m this \<and> capacity_m this' = capacity_m this"
proof (induction i n this w rule: erase_range_pops.induct)
  case (1 i n this w)
  show ?case
  proof (cases "i < n")
    case False
    with "1.prems" show ?thesis
      by (auto simp: erase_range_pops_stop)
  next
    case True
    obtain r1 this1 w1 where p: "pop_back this w = (r1, this1, w1)"
      by (cases "pop_back this w")
    from pop_back_cases [OF p] have d: "data_m this1 = data_m this \<and> capacity_m this1 = capacity_m this"
      by auto
    show ?thesis
    proof (cases r1)
      case (Normal u)
      with True p "1.prems" have "erase_range_pops (i + 1) n this1 w1 = (r, this', w')"
        by (simp add: erase_range_pops_step)
      from "1.IH" [OF True p [symmetric] Normal refl this] d show ?thesis
        by simp
    next
      case (Throw e)
      with pop_back_cases [OF p] show ?thesis
        by simp
    next
      case Undefined
      with True p "1.prems" d show ?thesis
        by (auto simp: erase_range_pops_step)
    qed
  qed
qed

lemma erase_range_pops_Normal:
  "erase_range_pops i n this w = (Normal u, this', w') \<Longrightarrow> holds this w ys \<Longrightarrow>
     unat n - unat i \<le> length ys \<Longrightarrow>
     holds this' w' (take (length ys - (unat n - unat i)) ys)"
proof (induction i n this w arbitrary: ys rule: erase_range_pops.induct)
  case (1 i n this w)
  show ?case
  proof (cases "i < n")
    case False
    then have "unat n - unat i = 0"
      by (simp add: word_less_nat_alt)
    with False "1.prems" show ?thesis
      by (auto simp: erase_range_pops_stop)
  next
    case True
    then have lt: "unat i < unat n" and suc: "unat (i + 1) = Suc (unat i)"
      by (simp_all add: word_less_nat_alt unat_inc)
    with "1.prems"(3) have ne: "ys \<noteq> []"
      by auto
    obtain r1 this1 w1 where p: "pop_back this w = (r1, this1, w1)"
      by (cases "pop_back this w")
    with True "1.prems"(1) have r1: "r1 = Normal ()"
      and rest: "erase_range_pops (i + 1) n this1 w1 = (Normal u, this', w')"
      by (cases r1; simp add: erase_range_pops_step)+
    from pop_back_Normal [OF p [unfolded r1] "1.prems"(2) ne]
    have h1: "holds this1 w1 (butlast ys)"
      by blast
    from "1.prems"(3) lt have "unat n - unat (i + 1) \<le> length (butlast ys)"
      by (simp add: suc)
    from "1.IH" [OF True p [symmetric] r1 refl rest h1 this]
    have "holds this' w' (take (length (butlast ys) - (unat n - unat (i + 1))) (butlast ys))" .
    moreover have "take (length (butlast ys) - (unat n - unat (i + 1))) (butlast ys)
        = take (length ys - (unat n - unat i)) ys"
      using lt "1.prems"(3) by (simp add: suc butlast_conv_take min_def)
    ultimately show ?thesis
      by simp
  qed
qed


lemma std_swap_live: "std_swap p q w = (r, w') \<Longrightarrow> live w' = live w"
  by (auto simp: std_swap_def split: option.splits if_splits)

lemma erase_range_loop_live:
  "erase_range_loop i j this w = (r, w') \<Longrightarrow> live w' = live w"
proof (induction i j this w rule: erase_range_loop.induct)
  case (1 i j this w)
  show ?case
  proof (cases "j = end_vec this")
    case True
    with "1.prems" show ?thesis
      by (simp add: erase_range_loop_stop)
  next
    case False
    obtain r1 w1 where s: "std_swap i j w = (r1, w1)"
      by (cases "std_swap i j w")
    note l1 = std_swap_live [OF s]
    show ?thesis
    proof (cases r1)
      case (Normal u)
      with False s "1.prems" have "erase_range_loop (ptr_add i 1) (ptr_add j 1) this w1 = (r, w')"
        by (simp add: erase_range_loop_step)
      from "1.IH" [OF False s [symmetric] Normal this] l1 show ?thesis
        by simp
    next
      case (Throw e)
      with False s "1.prems" l1 show ?thesis
        by (simp add: erase_range_loop_step)
    next
      case Undefined
      with False s "1.prems" l1 show ?thesis
        by (simp add: erase_range_loop_step)
    qed
  qed
qed

lemma erase_range_pops_slots:
  "erase_range_pops i n this w = (Normal u, this', w') \<Longrightarrow> holds this w ys \<Longrightarrow>
     unat n - unat i \<le> length ys \<Longrightarrow>
     live w' = live w - int (unat n - unat i) \<and>
     (\<forall>q. slot w' q =
        (if \<exists>k. length ys - (unat n - unat i) \<le> k \<and> k < length ys \<and>
                 q = ptr_add (data_m this) (int k)
         then Some None else slot w q))"
proof (induction i n this w arbitrary: ys rule: erase_range_pops.induct)
  case (1 i n this w)
  show ?case
  proof (cases "i < n")
    case False
    then have "unat n - unat i = 0"
      by (simp add: word_less_nat_alt)
    with False "1.prems" show ?thesis
      by (auto simp: erase_range_pops_stop)
  next
    case True
    then have lt: "unat i < unat n" and suc: "unat (i + 1) = Suc (unat i)"
      by (simp_all add: word_less_nat_alt unat_inc)
    define m where "m = unat n - unat i"
    from lt have m: "0 < m" "unat n - unat (i + 1) = m - 1"
      by (simp_all add: m_def suc)
    from "1.prems"(3) have ml: "m \<le> length ys"
      by (simp add: m_def)
    with m have ne: "ys \<noteq> []"
      by auto
    from "1.prems"(2) have len: "length ys = unat (size_m this)"
      by (rule holds_size)
    with ne have "size_m this \<noteq> 0"
      by auto
    then have last: "uint (size_m this - 1) = int (length ys - 1)"
      by (simp add: uint_eq_int [THEN iffD2] unat_minus_one len)
    obtain r1 this1 w1 where p: "pop_back this w = (r1, this1, w1)"
      by (cases "pop_back this w")
    with True "1.prems"(1) have r1: "r1 = Normal ()"
      and rest: "erase_range_pops (i + 1) n this1 w1 = (Normal u, this', w')"
      by (cases r1; simp add: erase_range_pops_step)+
    let ?p = "ptr_add (data_m this) (int (length ys - 1))"
    from pop_back_cases [OF p] r1 last obtain x where
      this1: "this1 = this\<lparr>size_m := size_m this - 1\<rparr>" and
      l: "slot w ?p = Some (Some x)" and
      w1: "w1 = (set_slot ?p None w)\<lparr>live := live w - 1\<rparr>"
      by auto
    have slot1: "slot w1 q = (if q = ?p then Some None else slot w q)" for q
      using l by (simp add: w1 slot_set_slot)
    have live1: "live w1 = live w - 1"
      by (simp add: w1)
    from pop_back_Normal [OF p [unfolded r1] "1.prems"(2) ne]
    have h1: "holds this1 w1 (butlast ys)"
      by blast
    from ml m have "unat n - unat (i + 1) \<le> length (butlast ys)"
      by simp
    from "1.IH" [OF True p [symmetric] r1 refl rest h1 this]
    have IH1: "live w' = live w1 - int (m - 1)"
      and IH2: "\<And>q. slot w' q =
        (if \<exists>k. length ys - 1 - (m - 1) \<le> k \<and> k < length ys - 1 \<and>
                 q = ptr_add (data_m this) (int k)
         then Some None else slot w1 q)"
      by (simp_all add: m this1)
    from IH1 live1 m have "live w' = live w - int m"
      by simp
    moreover have "slot w' q =
        (if \<exists>k. length ys - m \<le> k \<and> k < length ys \<and> q = ptr_add (data_m this) (int k)
         then Some None else slot w q)" for q
    proof (cases "\<exists>k. length ys - m \<le> k \<and> k < length ys - 1 \<and> q = ptr_add (data_m this) (int k)")
      case True
      then obtain k where "length ys - m \<le> k" "k < length ys - 1" "q = ptr_add (data_m this) (int k)"
        by blast
      moreover from this m ml have "length ys - 1 - (m - 1) \<le> k" "k < length ys"
        by simp_all
      ultimately show ?thesis
        by (simp only: IH2) (auto simp del: ptr_add_simps)
    next
      case False
      have eq: "length ys - 1 - (m - 1) = length ys - m"
        using m ml by simp
      from False have "slot w' q = slot w1 q"
        by (simp only: IH2 eq) simp
      also have "\<dots> = (if q = ?p then Some None else slot w q)"
        by (rule slot1)
      also have "\<dots> = (if \<exists>k. length ys - m \<le> k \<and> k < length ys \<and> q = ptr_add (data_m this) (int k)
         then Some None else slot w q)"
      proof (cases "q = ?p")
        case True
        moreover from m ml ne have "length ys - m \<le> length ys - 1" "length ys - 1 < length ys"
          by simp_all
        ultimately have ex: "\<exists>k. length ys - m \<le> k \<and> k < length ys \<and> q = ptr_add (data_m this) (int k)"
          by blast
        show ?thesis
          by (simp only: if_P [OF ex] if_P [OF True])
      next
        case nq: False
        have nex: "\<not> (\<exists>k. length ys - m \<le> k \<and> k < length ys \<and> q = ptr_add (data_m this) (int k))"
        proof
          assume "\<exists>k. length ys - m \<le> k \<and> k < length ys \<and> q = ptr_add (data_m this) (int k)"
          then obtain k where k: "length ys - m \<le> k" "k < length ys" "q = ptr_add (data_m this) (int k)"
            by blast
          with nq have "k \<noteq> length ys - 1"
            by auto
          with k have "k < length ys - 1"
            by simp
          with k False show False
            by blast
        qed
        show ?thesis
          by (simp only: if_not_P [OF nex] if_not_P [OF nq])
      qed
      finally show ?thesis .
    qed
    ultimately show ?thesis
      unfolding m_def by blast
  qed
qed

lemma erase_range_NormalD:
  assumes "erase_range first last' this w = (Normal r, this', w')"
  shows "\<exists>w1 d. erase_range_loop first last' this w = (Normal (), w1) \<and>
           ptr_diff last' first = Some d \<and>
           erase_range_pops 0 (word_of_int d) this w1 = (Normal (), this', w') \<and>
           r = ptr_add (begin_vec this') d"
proof -
  obtain r1 w1 where l: "erase_range_loop first last' this w = (r1, w1)"
    by (cases "erase_range_loop first last' this w")
  with assms have r1: "r1 = Normal ()"
    by (cases r1) (simp_all add: erase_range_def)
  from assms l r1 obtain d where d: "ptr_diff last' first = Some d"
    by (cases "ptr_diff last' first") (simp_all add: erase_range_def)
  obtain r2 this2 w2 where p: "erase_range_pops 0 (word_of_int d) this w1 = (r2, this2, w2)"
    by (cases "erase_range_pops 0 (word_of_int d :: size_t) this w1")
  with assms l r1 d have "r2 = Normal () \<and> this2 = this' \<and> w2 = w' \<and> r = ptr_add (begin_vec this') d"
    by (cases r2) (auto simp: erase_range_def)
  with l r1 d p show ?thesis
    by blast
qed

text \<open>
  C7. The vector holds \<open>xs\<close>, and \<open>first\<close> and \<open>last\<close> point at its positions
  \<open>a \<le> b \<le> length xs\<close>. When \<open>erase(first, last)\<close> returns normally, the vector
  holds the elements before \<open>a\<close> followed by the elements from \<open>b\<close> on, in their old
  order, the length has gone down by \<open>b - a\<close>, and the capacity is as before. The
  \<open>b - a\<close> slots after the new last element, up to the old length, hold no object any
  more, and the number of live objects has gone down by \<open>b - a\<close>: the erased elements
  were destroyed. From \<open>[1, 2, 3, 4, 5]\<close>, erasing positions 1 to 3 leaves \<open>[1, 5]\<close>,
  length 2 and two live objects.
\<close>

theorem erase_range_success:
  assumes "erase_range first last' this w = (Normal r, this', w')"
    and "holds this w xs"
    and "first = ptr_add (begin_vec this) (int a)" and "last' = ptr_add (begin_vec this) (int b)"
    and "a \<le> b" and "b \<le> length xs"
  shows "holds this' w' (take a xs @ drop b xs) \<and>
         size_vec this' = size_vec this - of_nat (b - a) \<and> capacity this' = capacity this \<and>
         live w' = live w - int (b - a) \<and>
         (\<forall>k. length xs - (b - a) \<le> k \<and> k < length xs \<longrightarrow>
            slot w' (ptr_add (data_m this') (int k)) = Some None)"
proof -
  let ?n = "length xs"
  let ?d = "data_m this"
  from assms(2) have len: "?n = unat (size_m this)"
    by (rule holds_size)
  have live: "slot w (ptr_add ?d (int k)) = Some (Some (xs ! k))" if "k < ?n" for k
    using assms(2) that by (simp add: holds_iff)
  have first: "first = ptr_add ?d (int a)" and last: "last' = ptr_add ?d (int b)"
    using assms(3,4) by (simp_all add: begin_vec_def)
  have e: "end_vec this = ptr_add ?d (int ?n)"
    by (simp add: end_vec_def len)
  from erase_range_NormalD [OF assms(1)] obtain w1 d where
    l: "erase_range_loop first last' this w = (Normal (), w1)" and
    d: "ptr_diff last' first = Some d" and
    p: "erase_range_pops 0 (word_of_int d) this w1 = (Normal (), this', w')"
    by blast
  from d assms(5) have d_eq: "d = int (b - a)"
    by (simp add: ptr_diff_def first last split: if_splits)
  have "b - a < 2 ^ 64"
    using assms(6) len unsigned_less [of "size_m this", where 'a = nat]
    by simp
  then have pops: "unat (word_of_int d :: size_t) = b - a"
    by (simp add: d_eq unat_of_nat)
  have "blk first = blk last'" "off first \<le> off last'"
    using assms(5) by (simp_all add: first last)
  from erase_range_loop_Normal [OF l this]
  have A: "\<forall>q. blk q \<noteq> blk first \<or> off q < off first \<longrightarrow> slot w1 q = slot w q"
    and B: "\<forall>t. off last' + int t < off (end_vec this) \<longrightarrow>
          slot w1 (ptr_add first (int t)) = slot w (ptr_add last' (int t))"
    and C: "\<forall>q. (\<exists>x. slot w1 q = Some (Some x)) \<longleftrightarrow> (\<exists>x. slot w q = Some (Some x))"
    by simp_all
  have low: "slot w1 (ptr_add ?d (int k)) = Some (Some (xs ! k))" if "k < a" for k
  proof -
    from that have "slot w1 (ptr_add ?d (int k)) = slot w (ptr_add ?d (int k))"
      using A by (simp add: first)
    with that assms(5,6) live [of k] show ?thesis
      by simp
  qed
  have high: "slot w1 (ptr_add ?d (int (a + t))) = Some (Some (xs ! (b + t)))" if "b + t < ?n" for t
  proof -
    from that have "off last' + int t < off (end_vec this)"
      by (simp add: last e)
    with B have "slot w1 (ptr_add first (int t)) = slot w (ptr_add last' (int t))"
      by blast
    with live [OF that] show ?thesis
      by (simp add: first last)
  qed
  define ys where "ys = map (\<lambda>k. the (the (slot w1 (ptr_add ?d (int k))))) [0..<?n]"
  have h1: "holds this w1 ys"
    unfolding holds_iff
  proof (intro conjI allI impI)
    show "length ys = unat (size_m this)"
      by (simp add: ys_def len)
  next
    fix k assume "k < length ys"
    then have k: "k < ?n"
      by (simp add: ys_def)
    with live [of k] C obtain y where "slot w1 (ptr_add ?d (int k)) = Some (Some y)"
      by blast
    with k show "slot w1 (ptr_add ?d (int k)) = Some (Some (ys ! k))"
      by (simp add: ys_def)
  qed
  have ys_len: "length ys = ?n"
    by (simp add: ys_def)
  have ys_low: "ys ! k = xs ! k" if "k < a" for k
    using that assms(5,6) low [OF that] by (simp add: ys_def)
  have ys_high: "ys ! (a + t) = xs ! (b + t)" if "b + t < ?n" for t
    using that assms(5) high [OF that] by (simp add: ys_def)
  have kept: "take (?n - (b - a)) ys = take a xs @ drop b xs"
  proof (rule nth_equalityI)
    show "length (take (?n - (b - a)) ys) = length (take a xs @ drop b xs)"
      using assms(5,6) by (simp add: ys_len)
  next
    fix k assume "k < length (take (?n - (b - a)) ys)"
    then have k: "k < ?n - (b - a)"
      by (simp add: ys_len)
    show "take (?n - (b - a)) ys ! k = (take a xs @ drop b xs) ! k"
    proof (cases "k < a")
      case True
      with k assms(5,6) show ?thesis
        by (simp add: nth_append ys_low)
    next
      case False
      then obtain t where t: "k = a + t"
        by (metis le_Suc_ex not_less)
      with k assms(5,6) have "b + t < ?n"
        by simp
      from ys_high [OF this] k assms(5,6) show ?thesis
        by (simp add: t nth_append)
    qed
  qed
  from assms(5,6) have bound: "unat (word_of_int d :: size_t) - unat (0 :: size_t) \<le> length ys"
    by (simp add: pops ys_len)
  from erase_range_pops_Normal [OF p h1 bound]
  have h': "holds this' w' (take a xs @ drop b xs)"
    by (simp add: pops ys_len kept)
  from erase_range_pops_slots [OF p h1 bound] erase_range_loop_live [OF l]
  have gone: "live w' = live w - int (b - a)"
    and raw: "\<And>q. slot w' q =
        (if \<exists>k. ?n - (b - a) \<le> k \<and> k < ?n \<and> q = ptr_add ?d (int k)
         then Some None else slot w1 q)"
    by (simp_all add: pops ys_len)
  have free: "slot w' (ptr_add ?d (int k)) = Some None" if "?n - (b - a) \<le> k" "k < ?n" for k
  proof -
    from that have "\<exists>j. ?n - (b - a) \<le> j \<and> j < ?n \<and> ptr_add ?d (int k) = ptr_add ?d (int j)"
      by blast
    then show ?thesis
      by (simp only: raw if_True)
  qed
  from h' have u: "unat (size_m this') = a + (?n - b)"
    using assms(5,6) by (simp add: holds_iff)
  have "size_m this' = of_nat (unat (size_m this'))"
    by simp
  also note u
  also have "a + (?n - b) = ?n - (b - a)"
    using assms(5,6) by simp
  also have "(of_nat (?n - (b - a)) :: size_t) = of_nat ?n - of_nat (b - a)"
    using assms(5,6) by (simp add: of_nat_diff)
  finally have sz: "size_vec this' = size_vec this - of_nat (b - a)"
    by (simp add: size_vec_def len)
  from erase_range_pops_data [OF p] have "capacity this' = capacity this"
    and same: "data_m this' = data_m this"
    by (simp_all add: capacity_def)
  with h' sz gone free show ?thesis
    by simp
qed


theorem erase_range_success_witness:
  "holds (fst (snd (erase_range (Ptr 1 1) (Ptr 1 4) \<lparr>data_m = Ptr 1 0, size_m = 5, capacity_m = 5\<rparr>
            (one_block [Some 1, Some 2, Some 3, Some 4, Some (5::int)] (\<lambda>i. False) (\<lambda>i. False)))))
         (snd (snd (erase_range (Ptr 1 1) (Ptr 1 4) \<lparr>data_m = Ptr 1 0, size_m = 5, capacity_m = 5\<rparr>
            (one_block [Some 1, Some 2, Some 3, Some 4, Some (5::int)] (\<lambda>i. False) (\<lambda>i. False)))))
         [1, 5] \<and>
   size_vec (fst (snd (erase_range (Ptr 1 1) (Ptr 1 4) \<lparr>data_m = Ptr 1 0, size_m = 5, capacity_m = 5\<rparr>
            (one_block [Some 1, Some 2, Some 3, Some 4, Some (5::int)] (\<lambda>i. False) (\<lambda>i. False))))) = 2 \<and>
   live (snd (snd (erase_range (Ptr 1 1) (Ptr 1 4) \<lparr>data_m = Ptr 1 0, size_m = 5, capacity_m = 5\<rparr>
            (one_block [Some 1, Some 2, Some 3, Some 4, Some (5::int)] (\<lambda>i. False) (\<lambda>i. False))))) = 2"
proof -
  let ?v = "\<lparr>data_m = Ptr 1 0, size_m = 5, capacity_m = 5\<rparr>"
  let ?w = "one_block [Some 1, Some 2, Some 3, Some 4, Some (5::int)] (\<lambda>i. False) (\<lambda>i. False)"
  let ?run = "erase_range (Ptr 1 1) (Ptr 1 4) ?v ?w"
  have "fst ?run = Normal (Ptr 1 3)"
    by code_simp
  then have run: "?run = (Normal (Ptr 1 3), fst (snd ?run), snd (snd ?run))"
    by (metis prod.collapse)
  have h: "holds ?v ?w [1, 2, 3, 4, 5]"
    by code_simp
  have f: "Ptr 1 1 = ptr_add (begin_vec ?v) (int 1)" and l: "Ptr 1 4 = ptr_add (begin_vec ?v) (int 4)"
    by (simp_all add: begin_vec_def ptr_add_def)
  have "holds (fst (snd ?run)) (snd (snd ?run)) (take 1 [1, 2, 3, 4, 5] @ drop 4 [1, 2, 3, 4, 5]) \<and>
        size_vec (fst (snd ?run)) = size_vec ?v - of_nat (4 - 1) \<and>
        capacity (fst (snd ?run)) = capacity ?v \<and>
        live (snd (snd ?run)) = live ?w - int (4 - 1) \<and>
        (\<forall>k. length [1, 2, 3, 4, 5 :: int] - (4 - 1) \<le> k \<and> k < length [1, 2, 3, 4, 5 :: int] \<longrightarrow>
           slot (snd (snd ?run)) (ptr_add (data_m (fst (snd ?run))) (int k)) = Some None)"
    by (rule erase_range_success [OF run h f l]) simp_all
  then show ?thesis
    by (simp add: size_vec_def one_block_def)
qed

lemma erase_NormalD:
  assumes "erase pos this w = (Normal r, this', w')"
  shows "r = ptr_add pos 1"
proof (cases "ptr_diff pos (begin_vec this)")
  case None
  with assms show ?thesis
    by (simp add: erase_def)
next
  case (Some d)
  obtain r1 w1 where l: "erase_loop (word_of_int d) this w = (r1, w1)"
    by (cases "erase_loop (word_of_int d :: size_t) this w")
  show ?thesis
  proof (cases r1)
    case (Normal u)
    obtain r2 this2 w2 where p: "pop_back this w1 = (r2, this2, w2)"
      by (cases "pop_back this w1")
    with assms Some l Normal show ?thesis
      by (cases r2) (simp_all add: erase_def)
  qed (use assms Some l in \<open>simp_all add: erase_def\<close>)
qed

text \<open>
  C10. When \<open>erase(first, last)\<close> returns normally, the iterator it returns is
  \<open>begin() + (last - first)\<close>, with \<open>begin()\<close> the same before and after: the start of
  the buffer moved on by the number of erased elements, wherever the range lay. When
  \<open>erase(pos)\<close> returns normally, it returns \<open>pos + 1\<close>.
\<close>

theorem erase_returns:
  "(erase_range first last' this w = (Normal r, this', w') \<longrightarrow>
      (\<exists>d. ptr_diff last' first = Some d \<and> r = ptr_add (begin_vec this') d) \<and>
      begin_vec this' = begin_vec this) \<and>
   (erase pos this w = (Normal r2, this2, w2) \<longrightarrow> r2 = ptr_add pos 1)"
proof (intro conjI impI)
  assume a: "erase_range first last' this w = (Normal r, this', w')"
  from erase_range_NormalD [OF a] obtain w1 d where
    d: "ptr_diff last' first = Some d" "r = ptr_add (begin_vec this') d" and
    p: "erase_range_pops 0 (word_of_int d) this w1 = (Normal (), this', w')"
    by blast
  from d show "\<exists>d. ptr_diff last' first = Some d \<and> r = ptr_add (begin_vec this') d"
    by blast
  from erase_range_pops_data [OF p] show "begin_vec this' = begin_vec this"
    by (simp add: begin_vec_def)
next
  assume "erase pos this w = (Normal r2, this2, w2)"
  then show "r2 = ptr_add pos 1"
    by (rule erase_NormalD)
qed

theorem erase_returns_witness:
  "ptr_diff (Ptr 1 4) (Ptr 1 3) = Some 1 \<and>
   fst (erase_range (Ptr 1 3) (Ptr 1 4) \<lparr>data_m = Ptr 1 0, size_m = 5, capacity_m = 5\<rparr>
          (one_block [Some 1, Some 2, Some 3, Some 4, Some (5::int)] (\<lambda>i. False) (\<lambda>i. False)))
     = Normal (ptr_add (begin_vec \<lparr>data_m = Ptr 1 0, size_m = 5, capacity_m = 5\<rparr>) 1) \<and>
   fst (erase (Ptr 1 1) \<lparr>data_m = Ptr 1 0, size_m = 5, capacity_m = 5\<rparr>
          (one_block [Some 1, Some 2, Some 3, Some 4, Some (5::int)] (\<lambda>i. False) (\<lambda>i. False)))
     = Normal (ptr_add (Ptr 1 1) 1)"
proof -
  let ?v = "\<lparr>data_m = Ptr 1 0, size_m = 5, capacity_m = 5\<rparr>"
  let ?w = "one_block [Some 1, Some 2, Some 3, Some 4, Some (5::int)] (\<lambda>i. False) (\<lambda>i. False)"
  let ?run = "erase_range (Ptr 1 3) (Ptr 1 4) ?v ?w"
  let ?one = "erase (Ptr 1 1) ?v ?w"
  have 1: "fst ?run = Normal (Ptr 1 1)"
    by code_simp
  then have run: "?run = (Normal (Ptr 1 1), fst (snd ?run), snd (snd ?run))"
    by (metis prod.collapse)
  have 2: "fst ?one = Normal (Ptr 1 2)"
    by code_simp
  then have one: "?one = (Normal (Ptr 1 2), fst (snd ?one), snd (snd ?one))"
    by (metis prod.collapse)
  have d: "ptr_diff (Ptr 1 4) (Ptr 1 3) = Some 1"
    by (simp add: ptr_diff_def)
  from erase_returns [of "Ptr 1 3" "Ptr 1 4" ?v ?w "Ptr 1 1" "fst (snd ?run)" "snd (snd ?run)"
      "Ptr 1 1" "Ptr 1 2" "fst (snd ?one)" "snd (snd ?one)"] run one d
  have "Ptr 1 1 = ptr_add (begin_vec ?v) 1" "Ptr 1 2 = ptr_add (Ptr 1 1) 1"
    by auto
  with 1 2 d show ?thesis
    by simp
qed


section \<open>The rollback of copy_construct_all\<close>


lemma copy_construct_loop_Throw_at:
  assumes "blk dst \<noteq> blk src" and "i \<le> k" and "k < sz"
    and "\<forall>j. unat i \<le> j \<and> j \<le> unat k \<longrightarrow> slot w (ptr_add src (int j)) = Some (Some (f j))"
    and "\<forall>j. unat i \<le> j \<and> j \<le> unat k \<longrightarrow> slot w (ptr_add dst (int j)) = Some None"
    and "\<forall>j. unat i \<le> j \<and> j < unat k \<longrightarrow> \<not> copy_fails w (copies w + (j - unat i))"
    and "copy_fails w (copies w + (unat k - unat i))"
  shows "\<exists>w'. copy_construct_loop dst src sz i w = (Throw ElementOperationFailure, k, w') \<and>
           (\<forall>j. unat i \<le> j \<and> j < unat k \<longrightarrow> slot w' (ptr_add dst (int j)) = Some (Some (f j))) \<and>
           (\<forall>q. (\<forall>j. unat i \<le> j \<and> j < unat k \<longrightarrow> q \<noteq> ptr_add dst (int j)) \<longrightarrow> slot w' q = slot w q) \<and>
           live w' = live w + int (unat k - unat i)"
  using assms
proof (induction "unat k - unat i" arbitrary: i w)
  case 0
  then have ik: "i = k"
    by (simp add: word_le_nat_alt word_unat_eq_iff)
  from 0 ik have "i < sz"
    by simp
  moreover from "0.prems"(4) [rule_format, of "unat i"] "0.prems"(5) [rule_format, of "unat i"]
    "0.prems"(7) ik
  have "slot w (ptr_add src (uint i)) = Some (Some (f (unat i)))"
    "slot w (ptr_add dst (uint i)) = Some None" "copy_fails w (copies w)"
    by simp_all
  ultimately have "copy_construct_loop dst src sz i w
      = (Throw ElementOperationFailure, i, w\<lparr>copies := Suc (copies w)\<rparr>)"
    by (simp add: copy_construct_loop_step construct_at_def copy_T_def)
  with ik show ?case
    by auto
next
  case (Suc m)
  then have lt: "unat i < unat k" and isz: "i < sz" and ik: "i < k"
    by (simp_all add: word_less_nat_alt)
  then have suc: "unat (i + 1) = Suc (unat i)"
    by (simp add: unat_inc)
  define w1 where "w1 = set_slot (ptr_add dst (uint i)) (Some (f (unat i)))
      (w\<lparr>copies := Suc (copies w), live := live w + 1\<rparr>)"
  from Suc.prems(4) [rule_format, of "unat i"] Suc.prems(5) [rule_format, of "unat i"]
    Suc.prems(6) [rule_format, of "unat i"] lt
  have here: "slot w (ptr_add src (uint i)) = Some (Some (f (unat i)))"
    "slot w (ptr_add dst (uint i)) = Some None" "\<not> copy_fails w (copies w)"
    by simp_all
  then have step: "copy_construct_loop dst src sz i w = copy_construct_loop dst src sz (i + 1) w1"
    using isz by (simp add: copy_construct_loop_step construct_at_def copy_T_def w1_def)
  have w1_slot: "slot w1 q = (if q = ptr_add dst (uint i) then Some (Some (f (unat i))) else slot w q)" for q
    by (simp add: w1_def slot_set_slot here)
  have m: "m = unat k - unat (i + 1)"
    using Suc.hyps(2) by (simp add: suc)
  have le: "i + 1 \<le> k"
    using ik by (rule inc_le)
  have src1: "\<forall>j. unat (i + 1) \<le> j \<and> j \<le> unat k \<longrightarrow> slot w1 (ptr_add src (int j)) = Some (Some (f j))"
    using Suc.prems(1,4) by (auto simp: w1_slot suc ptr_add_def)
  have dst1: "\<forall>j. unat (i + 1) \<le> j \<and> j \<le> unat k \<longrightarrow> slot w1 (ptr_add dst (int j)) = Some None"
    using Suc.prems(5) by (auto simp: w1_slot suc int_eq_uint)
  have c1: "copies w1 = Suc (copies w)" and cf: "copy_fails w1 = copy_fails w"
    by (simp_all add: w1_def)
  have ok1: "\<forall>j. unat (i + 1) \<le> j \<and> j < unat k \<longrightarrow> \<not> copy_fails w1 (copies w1 + (j - unat (i + 1)))"
  proof (intro allI impI)
    fix j assume j: "unat (i + 1) \<le> j \<and> j < unat k"
    then have e: "copies w1 + (j - unat (i + 1)) = copies w + (j - unat i)"
      unfolding c1 suc by arith
    from j have "unat i \<le> j \<and> j < unat k"
      by (simp add: suc)
    with Suc.prems(6) have "\<not> copy_fails w (copies w + (j - unat i))"
      by blast
    then show "\<not> copy_fails w1 (copies w1 + (j - unat (i + 1)))"
      unfolding e cf .
  qed
  have bad1: "copy_fails w1 (copies w1 + (unat k - unat (i + 1)))"
  proof -
    have e: "copies w1 + (unat k - unat (i + 1)) = copies w + (unat k - unat i)"
      using lt unfolding c1 suc by arith
    show ?thesis
      unfolding e cf by (rule Suc.prems(7))
  qed
  from Suc.hyps(1) [OF m Suc.prems(1) le Suc.prems(3) src1 dst1 ok1 bad1]
  obtain w' where
    run: "copy_construct_loop dst src sz (i + 1) w1 = (Throw ElementOperationFailure, k, w')" and
    got: "\<forall>j. unat (i + 1) \<le> j \<and> j < unat k \<longrightarrow> slot w' (ptr_add dst (int j)) = Some (Some (f j))" and
    frame: "\<forall>q. (\<forall>j. unat (i + 1) \<le> j \<and> j < unat k \<longrightarrow> q \<noteq> ptr_add dst (int j)) \<longrightarrow> slot w' q = slot w1 q" and
    lv: "live w' = live w1 + int (unat k - unat (i + 1))"
    by blast
  have first: "slot w' (ptr_add dst (int (unat i))) = Some (Some (f (unat i)))"
  proof -
    have "\<forall>j. unat (i + 1) \<le> j \<and> j < unat k \<longrightarrow> ptr_add dst (uint i) \<noteq> ptr_add dst (int j)"
      by (simp add: uint_eq_int suc)
    with frame have "slot w' (ptr_add dst (uint i)) = slot w1 (ptr_add dst (uint i))"
      by blast
    then show ?thesis
      by (simp add: w1_slot)
  qed
  show ?case
  proof (intro exI conjI allI impI)
    show "copy_construct_loop dst src sz i w = (Throw ElementOperationFailure, k, w')"
      using step run by simp
  next
    fix j assume j: "unat i \<le> j \<and> j < unat k"
    show "slot w' (ptr_add dst (int j)) = Some (Some (f j))"
    proof (cases "j = unat i")
      case True
      with first show ?thesis by simp
    next
      case False
      with j got show ?thesis
        by (simp add: suc)
    qed
  next
    fix q assume q: "\<forall>j. unat i \<le> j \<and> j < unat k \<longrightarrow> q \<noteq> ptr_add dst (int j)"
    with lt have "q \<noteq> ptr_add dst (int (unat i))"
      by blast
    then have "q \<noteq> ptr_add dst (uint i)"
      by simp
    moreover from q have "\<forall>j. unat (i + 1) \<le> j \<and> j < unat k \<longrightarrow> q \<noteq> ptr_add dst (int j)"
      by (simp add: suc)
    ultimately show "slot w' q = slot w q"
      using frame by (simp add: w1_slot)
  next
    show "live w' = live w + int (unat k - unat i)"
      using lv lt by (simp add: w1_def suc)
  qed
qed


lemma copy_construct_all_leaks:
  assumes "blk dst \<noteq> blk src" and "k < sz" and "to_int k \<le> 0"
    and "\<forall>j\<le>unat k. slot w (ptr_add src (int j)) = Some (Some (f j))"
    and "\<forall>j\<le>unat k. slot w (ptr_add dst (int j)) = Some None"
    and "\<forall>j<unat k. \<not> copy_fails w (copies w + j)"
    and "copy_fails w (copies w + unat k)"
  shows "\<exists>w'. copy_construct_all dst src sz w = (Throw ElementOperationFailure, w') \<and>
           (\<forall>j<unat k. slot w' (ptr_add dst (int j)) = Some (Some (f j))) \<and>
           live w' = live w + int (unat k)"
proof -
  from copy_construct_loop_Throw_at [of dst src 0 k sz w f] assms
  obtain w' where
    run: "copy_construct_loop dst src sz 0 w = (Throw ElementOperationFailure, k, w')" and
    got: "\<forall>j<unat k. slot w' (ptr_add dst (int j)) = Some (Some (f j))" and
    lv: "live w' = live w + int (unat k)"
    by auto
  from run assms(3) have "copy_construct_all dst src sz w = (Throw ElementOperationFailure, w')"
    by (simp add: copy_construct_all_def destroy_all_nonpos)
  with got lv show ?thesis
    by blast
qed

text \<open>
  C4. A vector of \<open>2^31 + 1\<close> elements is copy-constructed, and the copy constructor of
  the element type throws on the last element, number \<open>2^31\<close>. \<open>copy_construct_all\<close>
  hands its \<^verbatim>\<open>size_t\<close> counter to \<open>destroy_all\<close>, which takes an \<^verbatim>\<open>int\<close>: the count
  arrives as \<open>-2^31\<close> and no element is destroyed. The exception reaches the caller
  with \<open>2^31\<close> more live elements than before the call.
\<close>

theorem copy_of_large_vector_leaks:
  "fst (vector_copy_ctor \<lparr>data_m = Ptr 1 0, size_m = 2 ^ 31 + 1, capacity_m = 2 ^ 31 + 1\<rparr>
          (one_block (replicate (2 ^ 31 + 1) (Some (7::int))) (\<lambda>i. False) (\<lambda>i. i = 2 ^ 31)))
     = Throw ElementOperationFailure \<and>
   live (snd (vector_copy_ctor \<lparr>data_m = Ptr 1 0, size_m = 2 ^ 31 + 1, capacity_m = 2 ^ 31 + 1\<rparr>
          (one_block (replicate (2 ^ 31 + 1) (Some (7::int))) (\<lambda>i. False) (\<lambda>i. i = 2 ^ 31))))
     = live (one_block (replicate (2 ^ 31 + 1) (Some (7::int))) (\<lambda>i. False) (\<lambda>i. i = 2 ^ 31)) + 2 ^ 31"
proof -
  let ?v = "\<lparr>data_m = Ptr 1 0, size_m = 2 ^ 31 + 1, capacity_m = 2 ^ 31 + 1\<rparr>"
  let ?W = "one_block (replicate (2 ^ 31 + 1) (Some (7::int))) (\<lambda>i. False) (\<lambda>i. i = 2 ^ 31)"
  define W1 where "W1 = snd (operator_new (capacity_m ?v * sizeof_T ?W) ?W)"
  have new: "operator_new (capacity_m ?v * sizeof_T ?W) ?W = (Normal (Ptr 2 0), W1)"
    by (simp add: W1_def operator_new_def one_block_def)
  have b1: "blocks W1 (Suc 0) = Some (replicate (2 ^ 31 + 1) (Some 7))"
    and b2: "blocks W1 2 = Some (replicate (2 ^ 31 + 1) None)"
    and c: "copies W1 = 0" "copy_fails W1 = (\<lambda>i. i = 2 ^ 31)" "live W1 = live ?W"
    by (simp_all add: W1_def operator_new_def one_block_def)
  have k: "unat (2 ^ 31 :: size_t) = 2 ^ 31"
    by simp
  have "\<exists>w'. copy_construct_all (Ptr 2 0) (Ptr 1 0) (2 ^ 31 + 1) W1 = (Throw ElementOperationFailure, w') \<and>
           (\<forall>j<unat (2 ^ 31 :: size_t). slot w' (ptr_add (Ptr 2 0) (int j)) = Some (Some 7)) \<and>
           live w' = live W1 + int (unat (2 ^ 31 :: size_t))"
  proof (rule copy_construct_all_leaks)
    show "blk (Ptr 2 0) \<noteq> blk (Ptr 1 0)"
      by simp
    show "(2 ^ 31 :: size_t) < 2 ^ 31 + 1"
      by simp
    show "to_int (2 ^ 31) \<le> 0"
      by (simp add: to_int_def)
    show "\<forall>j\<le>unat (2 ^ 31 :: size_t). slot W1 (ptr_add (Ptr 1 0) (int j)) = Some (Some 7)"
      unfolding k by (simp add: slot_def ptr_add_def b1)
    show "\<forall>j\<le>unat (2 ^ 31 :: size_t). slot W1 (ptr_add (Ptr 2 0) (int j)) = Some None"
      unfolding k by (simp add: slot_def ptr_add_def b2)
    show "\<forall>j<unat (2 ^ 31 :: size_t). \<not> copy_fails W1 (copies W1 + j)"
      unfolding k by (simp add: c)
    show "copy_fails W1 (copies W1 + unat (2 ^ 31 :: size_t))"
      unfolding k by (simp add: c)
  qed
  then obtain w2 where
    copy: "copy_construct_all (Ptr 2 0) (Ptr 1 0) (2 ^ 31 + 1) W1 = (Throw ElementOperationFailure, w2)" and
    got: "\<forall>j<unat (2 ^ 31 :: size_t). slot w2 (ptr_add (Ptr 2 0) (int j)) = Some (Some 7)" and
    lv: "live w2 = live W1 + int (unat (2 ^ 31 :: size_t))"
    by blast
  from got [rule_format, of 0] have "slot w2 (ptr_add (Ptr 2 0) (int 0)) = Some (Some 7)"
    unfolding k by simp
  from slot_SomeD [OF this] have "blocks w2 2 \<noteq> None"
    by auto
  then have del: "operator_delete (Ptr 2 0) w2 = (Normal (), w2\<lparr>blocks := (blocks w2)(2 := None)\<rparr>)"
    by (simp add: operator_delete_def nullptr_def)
  from new copy del have "vector_copy_ctor ?v ?W =
      (Throw ElementOperationFailure, w2\<lparr>blocks := (blocks w2)(2 := None)\<rparr>)"
    by (simp add: vector_copy_ctor_def)
  with lv c(3) show ?thesis
    unfolding k by simp
qed




lemma destroy_all_loop_live:
  assumes "\<forall>j. i \<le> j \<and> j < sz \<longrightarrow> (\<exists>x. slot w (ptr_add vec j) = Some (Some x))"
  shows "\<exists>w'. destroy_all_loop vec sz i w = (Normal (), w') \<and>
           (\<forall>j. i \<le> j \<and> j < sz \<longrightarrow> slot w' (ptr_add vec j) = Some None) \<and>
           (\<forall>q. (\<forall>j. i \<le> j \<and> j < sz \<longrightarrow> q \<noteq> ptr_add vec j) \<longrightarrow> slot w' q = slot w q) \<and>
           live w' = live w - (if i < sz then sz - i else 0)"
  using assms
proof (induction "nat (sz - i)" arbitrary: i w)
  case 0
  then have "\<not> i < sz"
    by simp
  then show ?case
    by (auto simp: destroy_all_loop_stop)
next
  case (Suc m)
  then have lt: "i < sz"
    by simp
  from Suc.prems lt obtain x where l: "slot w (ptr_add vec i) = Some (Some x)"
    by auto
  define w1 where "w1 = (set_slot (ptr_add vec i) None w)\<lparr>live := live w - 1\<rparr>"
  from l have d: "destroy_at (ptr_add vec i) w = (Normal (), w1)"
    by (simp add: destroy_at_Normal w1_def)
  with lt have step: "destroy_all_loop vec sz i w = destroy_all_loop vec sz (i + 1) w1"
    by (simp add: destroy_all_loop_step)
  have w1_slot: "slot w1 q = (if q = ptr_add vec i then Some None else slot w q)" for q
    by (simp add: w1_def slot_set_slot l)
  have m: "m = nat (sz - (i + 1))"
    using Suc.hyps(2) by simp
  have live1: "\<forall>j. i + 1 \<le> j \<and> j < sz \<longrightarrow> (\<exists>x. slot w1 (ptr_add vec j) = Some (Some x))"
    using Suc.prems by (auto simp: w1_slot)
  from Suc.hyps(1) [OF m live1] obtain w' where
    run: "destroy_all_loop vec sz (i + 1) w1 = (Normal (), w')" and
    raw: "\<forall>j. i + 1 \<le> j \<and> j < sz \<longrightarrow> slot w' (ptr_add vec j) = Some None" and
    frame: "\<forall>q. (\<forall>j. i + 1 \<le> j \<and> j < sz \<longrightarrow> q \<noteq> ptr_add vec j) \<longrightarrow> slot w' q = slot w1 q" and
    lv: "live w' = live w1 - (if i + 1 < sz then sz - (i + 1) else 0)"
    by blast
  have first: "slot w' (ptr_add vec i) = Some None"
  proof -
    have "\<forall>j. i + 1 \<le> j \<and> j < sz \<longrightarrow> ptr_add vec i \<noteq> ptr_add vec j"
      by simp
    with frame have "slot w' (ptr_add vec i) = slot w1 (ptr_add vec i)"
      by blast
    then show ?thesis
      by (simp add: w1_slot)
  qed
  show ?case
  proof (intro exI conjI allI impI)
    show "destroy_all_loop vec sz i w = (Normal (), w')"
      using step run by simp
  next
    fix j assume j: "i \<le> j \<and> j < sz"
    show "slot w' (ptr_add vec j) = Some None"
    proof (cases "j = i")
      case True
      with first show ?thesis by simp
    next
      case False
      with j raw show ?thesis
        by simp
    qed
  next
    fix q assume q: "\<forall>j. i \<le> j \<and> j < sz \<longrightarrow> q \<noteq> ptr_add vec j"
    with lt have "q \<noteq> ptr_add vec i"
      by blast
    moreover from q have "\<forall>j. i + 1 \<le> j \<and> j < sz \<longrightarrow> q \<noteq> ptr_add vec j"
      by simp
    ultimately show "slot w' q = slot w q"
      using frame by (simp add: w1_slot)
  next
    show "live w' = live w - (if i < sz then sz - i else 0)"
      using lv lt by (simp add: w1_def)
  qed
qed

lemma copy_construct_loop_Throw:
  "copy_construct_loop dst src sz i w = (Throw e, k, w') \<Longrightarrow>
     unat i \<le> unat k \<and> k < sz \<and> e = ElementOperationFailure \<and>
     (\<forall>j. unat i \<le> j \<and> j < unat k \<longrightarrow> (\<exists>x. slot w' (ptr_add dst (int j)) = Some (Some x))) \<and>
     (\<forall>j. unat i \<le> j \<and> j < unat k \<longrightarrow> slot w (ptr_add dst (int j)) = Some None) \<and>
     (\<forall>q. (\<forall>j. unat i \<le> j \<and> j < unat k \<longrightarrow> q \<noteq> ptr_add dst (int j)) \<longrightarrow> slot w' q = slot w q) \<and>
     live w' = live w + int (unat k - unat i)"
proof (induction dst src sz i w rule: copy_construct_loop.induct)
  case (1 dst src sz i w)
  show ?case
  proof (cases "i < sz")
    case False
    with "1.prems" show ?thesis
      by (simp add: copy_construct_loop_stop)
  next
    case True
    then have suc: "unat (i + 1) = Suc (unat i)"
      by (simp add: unat_inc)
    from copy_construct_loop_cases [OF True "1.prems"]
    consider "k = i" "w' = w\<lparr>copies := Suc (copies w)\<rparr>" "e = ElementOperationFailure"
      | x where "slot w (ptr_add src (uint i)) = Some (Some x)"
          "slot w (ptr_add dst (uint i)) = Some None" "\<not> copy_fails w (copies w)"
          "copy_construct_loop dst src sz (i + 1)
              (set_slot (ptr_add dst (uint i)) (Some x)
                 (w\<lparr>copies := Suc (copies w), live := live w + 1\<rparr>)) = (Throw e, k, w')"
      by auto
    then show ?thesis
    proof cases
      case 1
      with True show ?thesis
        by auto
    next
      case (2 x)
      define w1 where "w1 = set_slot (ptr_add dst (uint i)) (Some x)
                 (w\<lparr>copies := Suc (copies w), live := live w + 1\<rparr>)"
      from 2 have c: "construct_at (ptr_add dst (uint i)) x w = (Normal (), w1)"
        by (simp add: construct_at_Normal w1_def)
      from 2 have rest: "copy_construct_loop dst src sz (i + 1) w1 = (Throw e, k, w')"
        by (simp add: w1_def)
      have w1_slot: "slot w1 q = (if q = ptr_add dst (uint i) then Some (Some x) else slot w q)" for q
        by (simp add: w1_def slot_set_slot 2(2))
      from "1.IH" [OF True 2(1) refl c [symmetric] refl rest]
      have le: "Suc (unat i) \<le> unat k" and ksz: "k < sz" and e: "e = ElementOperationFailure"
        and got: "\<forall>j. Suc (unat i) \<le> j \<and> j < unat k \<longrightarrow> (\<exists>x. slot w' (ptr_add dst (int j)) = Some (Some x))"
        and was: "\<forall>j. Suc (unat i) \<le> j \<and> j < unat k \<longrightarrow> slot w1 (ptr_add dst (int j)) = Some None"
        and frame: "\<forall>q. (\<forall>j. Suc (unat i) \<le> j \<and> j < unat k \<longrightarrow> q \<noteq> ptr_add dst (int j)) \<longrightarrow> slot w' q = slot w1 q"
        and lv: "live w' = live w1 + int (unat k - Suc (unat i))"
        by (simp_all add: suc)
      have first: "slot w' (ptr_add dst (int (unat i))) = Some (Some x)"
      proof -
        have "\<forall>j. Suc (unat i) \<le> j \<and> j < unat k \<longrightarrow> ptr_add dst (uint i) \<noteq> ptr_add dst (int j)"
          by (simp add: uint_eq_int)
        with frame have "slot w' (ptr_add dst (uint i)) = slot w1 (ptr_add dst (uint i))"
          by blast
        then show ?thesis
          by (simp add: w1_slot)
      qed
      show ?thesis
      proof (intro conjI allI impI)
        show "unat i \<le> unat k" using le by simp
        show "k < sz" by (rule ksz)
        show "e = ElementOperationFailure" by (rule e)
      next
        fix j assume j: "unat i \<le> j \<and> j < unat k"
        show "\<exists>x. slot w' (ptr_add dst (int j)) = Some (Some x)"
        proof (cases "j = unat i")
          case True
          with first show ?thesis by simp
        next
          case False
          with j got show ?thesis
            by simp
        qed
      next
        fix j assume j: "unat i \<le> j \<and> j < unat k"
        show "slot w (ptr_add dst (int j)) = Some None"
        proof (cases "j = unat i")
          case True
          with 2(2) show ?thesis by simp
        next
          case False
          with j have "Suc (unat i) \<le> j \<and> j < unat k"
            by simp
          with was have "slot w1 (ptr_add dst (int j)) = Some None"
            by blast
          with False show ?thesis
            by (simp add: w1_slot int_eq_uint split: if_splits)
        qed
      next
        fix q assume q: "\<forall>j. unat i \<le> j \<and> j < unat k \<longrightarrow> q \<noteq> ptr_add dst (int j)"
        with le have "q \<noteq> ptr_add dst (int (unat i))"
          by (metis Suc_le_lessD le_refl)
        then have "q \<noteq> ptr_add dst (uint i)"
          by simp
        moreover from q have "\<forall>j. Suc (unat i) \<le> j \<and> j < unat k \<longrightarrow> q \<noteq> ptr_add dst (int j)"
          by simp
        ultimately show "slot w' q = slot w q"
          using frame by (simp add: w1_slot)
      next
        show "live w' = live w + int (unat k - unat i)"
          using lv le by (simp add: w1_def)
      qed
    qed
  qed
qed



lemma to_int_small:
  assumes "unat k < 2 ^ 31"
  shows "to_int k = int (unat k)"
proof -
  have un: "uint k = int (unat k)"
    by (rule uint_nat)
  from assms have "int (unat k) < int (2 ^ 31)"
    by (rule of_nat_less_iff [THEN iffD2])
  with un have u: "0 \<le> uint k" "uint k < 2 ^ 31"
    by simp_all
  have "uint (ucast k :: 32 word) = take_bit 32 (uint k)"
    by (simp add: unsigned_ucast_eq)
  also have "\<dots> = uint k"
    using u by (simp add: take_bit_int_eq_self)
  finally have uc: "uint (ucast k :: 32 word) = uint k" .
  have "sint (ucast k :: 32 word) = signed_take_bit 31 (uint (ucast k :: 32 word))"
    by (simp add: sint_uint)
  also have "\<dots> = uint k"
    unfolding uc
  proof (rule signed_take_bit_int_eq_self)
    show "- (2 ^ 31) \<le> uint k"
      by (rule order_trans [of _ 0]) simp_all
    show "uint k < 2 ^ 31"
      by (rule u)
  qed
  finally show ?thesis
    unfolding to_int_def un .
qed

lemma to_int_le: "to_int k \<le> int (unat k)"
proof (cases "unat k < 2 ^ 31")
  case True
  then show ?thesis
    by (simp add: to_int_small)
next
  case False
  have "sint (ucast k :: 32 word) < 2 ^ (LENGTH(32) - 1)"
    by (rule sint_lt)
  moreover from False have "int (2 ^ 31) \<le> int (unat k)"
    by (simp del: of_nat_unat)
  ultimately show ?thesis
    unfolding to_int_def by (simp del: of_nat_unat)
qed


lemma copy_construct_all_rollback:
  assumes "copy_construct_loop dst src sz 0 w = (Throw e, k, w1)"
  shows "\<exists>w'. copy_construct_all dst src sz w = (Throw e, w') \<and> e = ElementOperationFailure \<and>
           (unat k < 2 ^ 31 \<longrightarrow> (\<forall>q. slot w' q = slot w q) \<and> live w' = live w)"
proof -
  from copy_construct_loop_Throw [OF assms]
  have e: "e = ElementOperationFailure"
    and got: "\<forall>j<unat k. \<exists>x. slot w1 (ptr_add dst (int j)) = Some (Some x)"
    and was: "\<forall>j<unat k. slot w (ptr_add dst (int j)) = Some None"
    and frame: "\<forall>q. (\<forall>j<unat k. q \<noteq> ptr_add dst (int j)) \<longrightarrow> slot w1 q = slot w q"
    and lv: "live w1 = live w + int (unat k)"
    by simp_all
  let ?m = "to_int k"
  have in_range: "nat j < unat k \<and> int (nat j) = j" if "0 \<le> j" "j < ?m" for j
  proof -
    from that(2) to_int_le [of k] have "j < int (unat k)"
      by (rule less_le_trans)
    with that(1) show ?thesis
      by (simp add: nat_less_iff del: of_nat_unat)
  qed
  have "\<forall>j. 0 \<le> j \<and> j < ?m \<longrightarrow> (\<exists>x. slot w1 (ptr_add dst j) = Some (Some x))"
  proof (intro allI impI)
    fix j assume "0 \<le> j \<and> j < ?m"
    then have "nat j < unat k" "int (nat j) = j"
      using in_range by simp_all
    with got show "\<exists>x. slot w1 (ptr_add dst j) = Some (Some x)"
      by metis
  qed
  from destroy_all_loop_live [OF this] obtain w' where
    run: "destroy_all_loop dst ?m 0 w1 = (Normal (), w')" and
    raw: "\<forall>j. 0 \<le> j \<and> j < ?m \<longrightarrow> slot w' (ptr_add dst j) = Some None" and
    frame': "\<forall>q. (\<forall>j. 0 \<le> j \<and> j < ?m \<longrightarrow> q \<noteq> ptr_add dst j) \<longrightarrow> slot w' q = slot w1 q" and
    lv': "live w' = live w1 - (if 0 < ?m then ?m - 0 else 0)"
    by blast
  from assms run have res: "copy_construct_all dst src sz w = (Throw e, w')"
    by (simp add: copy_construct_all_def destroy_all_def)
  have "(\<forall>q. slot w' q = slot w q) \<and> live w' = live w" if small: "unat k < 2 ^ 31"
  proof
    from small have m: "?m = int (unat k)"
      by (rule to_int_small)
    show "\<forall>q. slot w' q = slot w q"
    proof
      fix q
      show "slot w' q = slot w q"
      proof (cases "\<exists>j<unat k. q = ptr_add dst (int j)")
        case True
        then obtain j where j: "j < unat k" "q = ptr_add dst (int j)"
          by blast
        from j(1) have "0 \<le> int j \<and> int j < ?m"
          unfolding m by (simp del: of_nat_unat)
        with raw j(2) have "slot w' q = Some None"
          by blast
        with was j show ?thesis
          by simp
      next
        case False
        then have 1: "\<forall>j<unat k. q \<noteq> ptr_add dst (int j)"
          by blast
        have "\<forall>j. 0 \<le> j \<and> j < ?m \<longrightarrow> q \<noteq> ptr_add dst j"
        proof (intro allI impI)
          fix j assume "0 \<le> j \<and> j < ?m"
          then have "nat j < unat k" "int (nat j) = j"
            using in_range by simp_all
          with 1 show "q \<noteq> ptr_add dst j"
            by metis
        qed
        with frame' have "slot w' q = slot w1 q"
          by blast
        with frame 1 show ?thesis
          by simp
      qed
    qed
    show "live w' = live w"
      using lv lv' unfolding m by (simp del: of_nat_unat)
  qed
  with res e show ?thesis
    by blast
qed

lemma new_buffer_copy_throws:
  assumes "n \<noteq> 0" and "operator_new (n * sizeof_T w) w = (Normal p, w1)"
    and "copy_construct_loop p (data_m this) (size_m this) 0 w1 = (Throw e, k, w2)"
  shows "\<exists>w'. new_buffer n this w = (Throw e, this, w')"
proof -
  from assms(2) have p: "p = Ptr (Suc (allocs w)) 0" and b1: "blocks w1 (Suc (allocs w)) \<noteq> None"
    by (auto simp: operator_new_Normal)
  from copy_construct_all_rollback [OF assms(3)] obtain w3 where
    c: "copy_construct_all p (data_m this) (size_m this) w1 = (Throw e, w3)"
    by blast
  from same_shape_copy_construct_all [OF c] b1 have "blocks w3 (Suc (allocs w)) \<noteq> None"
    by (auto simp: same_shape_def dest!: spec [of _ "Suc (allocs w)"])
  then have "operator_delete p w3 = (Normal (), w3\<lparr>blocks := (blocks w3)(Suc (allocs w) := None)\<rparr>)"
    by (simp add: operator_delete_def p nullptr_def)
  with assms(1,2) c show ?thesis
    by (simp add: new_buffer_unfold)
qed

section \<open>The reachable states\<close>


lemma rep_ok_ctor [simp]: "rep_ok vector_ctor"
  by (simp add: rep_ok_def vector_ctor_def nullptr_def)

lemma rep_ok_fresh:
  "n = 0 \<longrightarrow> sz = 0 \<Longrightarrow> rep_ok \<lparr>data_m = Ptr (Suc a) 0, size_m = sz, capacity_m = n\<rparr>"
  by (simp add: rep_ok_def nullptr_def)

lemma heap_ok_construct_at: "construct_at p x w = (r, w') \<Longrightarrow> heap_ok w \<Longrightarrow> heap_ok w'"
  by (cases r) (auto simp: construct_at_Normal construct_at_Throw dest: construct_at_Undefined)

lemma heap_ok_std_swap: "std_swap p q w = (r, w') \<Longrightarrow> heap_ok w \<Longrightarrow> heap_ok w'"
  by (cases r) (auto simp: std_swap_Normal std_swap_Throw std_swap_def split: option.splits if_splits)

lemma vector_copy_ctor_inv:
  assumes "vector_copy_ctor other w = (r, w')" and "heap_ok w"
  shows "heap_ok w' \<and> (\<forall>v. r = Normal v \<longrightarrow>
           v = \<lparr>data_m = Ptr (Suc (allocs w)) 0, size_m = size_m other, capacity_m = capacity_m other\<rparr>)"
proof -
  obtain r1 w1 where a: "operator_new (capacity_m other * sizeof_T w) w = (r1, w1)"
    by (cases "operator_new (capacity_m other * sizeof_T w) w")
  note h1 = heap_ok_operator_new [OF a assms(2)]
  show ?thesis
  proof (cases r1)
    case Undefined
    with a show ?thesis by simp
  next
    case (Throw e)
    with a assms(1) h1 show ?thesis
      by (auto simp: vector_copy_ctor_def)
  next
    case (Normal p)
    with a have p: "p = Ptr (Suc (allocs w)) 0"
      by (simp add: operator_new_Normal)
    obtain r2 w2 where b: "copy_construct_all p (data_m other) (size_m other) w1 = (r2, w2)"
      by (cases "copy_construct_all p (data_m other) (size_m other) w1")
    from copy_construct_all_frame [OF b] h1 have h2: "heap_ok w2"
      by simp
    show ?thesis
    proof (cases r2)
      case Normal2: (Normal u)
      with a Normal b assms(1) h2 p show ?thesis
        by (auto simp: vector_copy_ctor_def)
    next
      case (Throw e)
      obtain r3 w3 where c: "operator_delete p w2 = (r3, w3)"
        by (cases "operator_delete p w2")
      with a Normal b Throw assms(1) have "w' = w3" "\<forall>v. r \<noteq> Normal v"
        by (cases r3; auto simp: vector_copy_ctor_def)+
      with operator_delete_cases [OF c] h2 show ?thesis
        by simp
    next
      case Undefined
      with a Normal b assms(1) h2 show ?thesis
        by (auto simp: vector_copy_ctor_def)
    qed
  qed
qed


lemma new_buffer_inv:
  assumes "new_buffer n v w = (r, v', w')" and "r \<noteq> Undefined" and "rep_ok v" and "heap_ok w"
  shows "rep_ok v' \<and> heap_ok w'"
proof -
  from new_buffer_frame [OF assms(1)] assms(4) have ok: "heap_ok w'"
    and thr: "\<forall>e. r = Throw e \<longrightarrow> v' = v"
    by simp_all
  have "rep_ok v'"
  proof (cases r)
    case (Throw e)
    with thr assms(3) show ?thesis by simp
  next
    case Undefined
    with assms(2) show ?thesis by simp
  next
    case (Normal u)
    show ?thesis
    proof (cases "n = 0")
      case True
      with assms(1) have "v' = vector_ctor"
        by (auto dest: new_buffer_zero)
      then show ?thesis by simp
    next
      case False
      from new_buffer_NormalD [OF assms(1) [unfolded Normal] False] False show ?thesis
        by (auto intro: rep_ok_fresh)
    qed
  qed
  with ok show ?thesis
    by simp
qed

lemma push_back_inv:
  assumes "push_back x v w = (r, v', w')" and "r \<noteq> Undefined" and "rep_ok v" and "heap_ok w"
  shows "rep_ok v' \<and> heap_ok w'"
proof (cases "size_m v = capacity_m v")
  case False
  with assms(3) have cap: "capacity_m v \<noteq> 0"
    by (auto simp: rep_ok_def)
  obtain r1 w1 where c: "construct_at (ptr_add (data_m v) (uint (size_m v))) x w = (r1, w1)"
    by (cases "construct_at (ptr_add (data_m v) (uint (size_m v))) x w")
  note h1 = heap_ok_construct_at [OF c assms(4)]
  from assms(1) False c have "w' = w1 \<and> (v' = v \<or> v' = v\<lparr>size_m := size_m v + 1\<rparr>)"
    by (cases r1) (auto simp: push_back_def)
  with h1 assms(3) cap show ?thesis
    by (auto simp: rep_ok_def)
next
  case True
  with assms(1) have pr: "push_back_realloc x v w = (r, v', w')"
    by (simp add: push_back_def)
  obtain r0 w0 where t: "copy_T x w = (r0, w0)"
    by (cases "copy_T x w")
  show ?thesis
  proof (cases r0)
    case Undefined
    with t show ?thesis by simp
  next
    case (Throw e)
    with t pr have "v' = v" "w' = w0"
      by (simp_all add: push_back_realloc_def)
    moreover from t Throw assms(4) have "heap_ok w0"
      by (simp add: copy_T_Throw)
    ultimately show ?thesis
      using assms(3) by simp
  next
    case (Normal tmp)
    with t assms(4) have h0: "heap_ok w0"
      by (simp add: copy_T_Normal)
    obtain r2 v1 w2 where nb: "new_buffer (increase_capacity v) v w0 = (r2, v1, w2)"
      by (cases "new_buffer (increase_capacity v) v w0")
    show ?thesis
    proof (cases r2)
      case Undefined
      with t Normal nb pr assms(2) show ?thesis
        by (simp add: push_back_realloc_def)
    next
      case (Throw e)
      with new_buffer_inv [OF nb _ assms(3) h0] have "rep_ok v1" "heap_ok w2"
        by simp_all
      moreover from t Normal nb Throw pr have "v' = v1" "w' = destroy_local w2"
        by (simp_all add: push_back_realloc_def)
      ultimately show ?thesis by simp
    next
      case Normal2: (Normal u)
      with new_buffer_inv [OF nb _ assms(3) h0] have i1: "rep_ok v1" "heap_ok w2"
        by simp_all
      obtain r3 w3 where c: "construct_at (ptr_add (data_m v1) (uint (size_m v1))) tmp w2 = (r3, w3)"
        by (cases "construct_at (ptr_add (data_m v1) (uint (size_m v1))) tmp w2")
      from t Normal nb Normal2 c pr assms(2) have r3: "r3 \<noteq> Undefined"
        and res: "w' = destroy_local w3 \<and> (v' = v1 \<or> v' = v1\<lparr>size_m := size_m v1 + 1\<rparr>)"
        by (cases r3; auto simp: push_back_realloc_def)+
      have ne: "increase_capacity v \<noteq> 0"
      proof
        assume "increase_capacity v = 0"
        with nb have "v1 = vector_ctor"
          by (auto dest: new_buffer_zero)
        with c r3 construct_at_null [of 0 tmp w2] show False
          by (simp add: vector_ctor_def)
      qed
      from new_buffer_NormalD [OF nb [unfolded Normal2] ne] ne
      have "capacity_m v1 \<noteq> 0"
        by auto
      with i1(1) res have "rep_ok v'"
        by (auto simp: rep_ok_def)
      moreover from heap_ok_construct_at [OF c i1(2)] res have "heap_ok w'"
        by simp
      ultimately show ?thesis ..
    qed
  qed
qed

lemma pop_back_inv:
  assumes "pop_back v w = (r, v', w')" and "r \<noteq> Undefined" and "rep_ok v" and "heap_ok w"
  shows "rep_ok v' \<and> heap_ok w'"
proof -
  let ?p = "ptr_add (data_m v) (uint (size_m v - 1))"
  from pop_back_cases [OF assms(1)] assms(2) obtain x where
    v': "v' = v\<lparr>size_m := size_m v - 1\<rparr>" and l: "slot w ?p = Some (Some x)" and
    w': "w' = (set_slot ?p None w)\<lparr>live := live w - 1\<rparr>"
    by auto
  have "capacity_m v \<noteq> 0"
  proof
    assume "capacity_m v = 0"
    with assms(3) have "size_m v = 0" "off (data_m v) = 0"
      by (simp_all add: rep_ok_def)
    then have "off ?p = 2 ^ 64 - 1"
      by (simp add: unsigned_minus_1_eq_mask mask_eq_exp_minus_1)
    with slot_bound [OF assms(4) l] show False
      by simp
  qed
  with assms(3,4) show ?thesis
    by (simp add: v' w' rep_ok_def)
qed

lemma reserve_inv:
  assumes "reserve n v w = (r, v', w')" and "r \<noteq> Undefined" and "rep_ok v" and "heap_ok w"
  shows "rep_ok v' \<and> heap_ok w'"
proof (cases "n \<le> capacity_m v")
  case True
  with assms show ?thesis
    by (auto simp: reserve_def)
next
  case False
  with assms(1) have "new_buffer n v w = (r, v', w')"
    by (simp add: reserve_def)
  from new_buffer_inv [OF this assms(2,3,4)] show ?thesis .
qed

lemma shrink_to_fit_inv:
  assumes "shrink_to_fit v w = (r, v', w')" and "r \<noteq> Undefined" and "rep_ok v" and "heap_ok w"
  shows "rep_ok v' \<and> heap_ok w'"
proof (cases "size_m v < capacity_m v")
  case False
  with assms show ?thesis
    by (auto simp: shrink_to_fit_def)
next
  case True
  with assms(1) have "new_buffer (size_m v) v w = (r, v', w')"
    by (simp add: shrink_to_fit_def)
  from new_buffer_inv [OF this assms(2,3,4)] show ?thesis .
qed

lemma clear_inv:
  assumes "clear v w = (r, v', w')" and "r \<noteq> Undefined" and "rep_ok v" and "heap_ok w"
  shows "rep_ok v' \<and> heap_ok w'"
proof -
  obtain r1 w1 where d: "destroy_all (data_m v) (to_int (size_m v)) w = (r1, w1)"
    by (cases "destroy_all (data_m v) (to_int (size_m v)) w")
  from destroy_all_frame [OF d] assms(4) have "heap_ok w1"
    by simp
  moreover from assms(1) d have "w' = w1 \<and> (v' = v \<or> v' = v\<lparr>size_m := 0\<rparr>)"
    by (cases r1) (auto simp: clear_def)
  ultimately show ?thesis
    using assms(3) by (auto simp: rep_ok_def)
qed


lemma insert_loop_heap_ok:
  "insert_loop ind i v w = (r, w') \<Longrightarrow> heap_ok w \<Longrightarrow> heap_ok w'"
proof (induction ind i v w rule: insert_loop.induct)
  case (1 ind i v w)
  show ?case
  proof (cases "i = ind")
    case True
    with "1.prems" show ?thesis
      by (subst (asm) insert_loop.simps) simp
  next
    case False
    obtain r1 w1 where s: "std_swap (ptr_add (data_m v) (uint i)) (ptr_add (data_m v) (uint (i - 1))) w = (r1, w1)"
      by (cases "std_swap (ptr_add (data_m v) (uint i)) (ptr_add (data_m v) (uint (i - 1))) w")
    note h1 = heap_ok_std_swap [OF s "1.prems"(2)]
    from "1.prems"(1) False s have
      "(r1 = Normal () \<and> insert_loop ind (i - 1) v w1 = (r, w')) \<or> w' = w1"
      by (subst (asm) insert_loop.simps) (cases r1; simp)
    with "1.IH" [OF False s [symmetric] _ _ h1] h1 show ?thesis
      by auto
  qed
qed

lemma erase_loop_heap_ok:
  "erase_loop i v w = (r, w') \<Longrightarrow> heap_ok w \<Longrightarrow> heap_ok w'"
proof (induction i v w rule: erase_loop.induct)
  case (1 i v w)
  show ?case
  proof (cases "i + 1 = size_m v")
    case True
    with "1.prems" show ?thesis
      by (subst (asm) erase_loop.simps) simp
  next
    case False
    obtain r1 w1 where s: "std_swap (ptr_add (data_m v) (uint i)) (ptr_add (data_m v) (uint (i + 1))) w = (r1, w1)"
      by (cases "std_swap (ptr_add (data_m v) (uint i)) (ptr_add (data_m v) (uint (i + 1))) w")
    note h1 = heap_ok_std_swap [OF s "1.prems"(2)]
    from "1.prems"(1) False s have
      "(r1 = Normal () \<and> erase_loop (i + 1) v w1 = (r, w')) \<or> w' = w1"
      by (subst (asm) erase_loop.simps) (cases r1; simp)
    with "1.IH" [OF False s [symmetric] _ _ h1] h1 show ?thesis
      by auto
  qed
qed

lemma erase_range_loop_heap_ok:
  "erase_range_loop i j v w = (r, w') \<Longrightarrow> heap_ok w \<Longrightarrow> heap_ok w'"
proof (induction i j v w rule: erase_range_loop.induct)
  case (1 i j v w)
  show ?case
  proof (cases "j = end_vec v")
    case True
    with "1.prems" show ?thesis
      by (simp add: erase_range_loop_stop)
  next
    case False
    obtain r1 w1 where s: "std_swap i j w = (r1, w1)"
      by (cases "std_swap i j w")
    note h1 = heap_ok_std_swap [OF s "1.prems"(2)]
    from "1.prems"(1) False s have
      "(r1 = Normal () \<and> erase_range_loop (ptr_add i 1) (ptr_add j 1) v w1 = (r, w')) \<or> w' = w1"
      by (cases r1) (simp_all add: erase_range_loop_step)
    with "1.IH" [OF False s [symmetric] _ _ h1] h1 show ?thesis
      by auto
  qed
qed

lemma erase_range_pops_inv:
  "erase_range_pops i n v w = (r, v', w') \<Longrightarrow> r \<noteq> Undefined \<Longrightarrow> rep_ok v \<Longrightarrow> heap_ok w \<Longrightarrow>
     rep_ok v' \<and> heap_ok w'"
proof (induction i n v w rule: erase_range_pops.induct)
  case (1 i n v w)
  show ?case
  proof (cases "i < n")
    case False
    with "1.prems" show ?thesis
      by (auto simp: erase_range_pops_stop)
  next
    case True
    obtain r1 v1 w1 where p: "pop_back v w = (r1, v1, w1)"
      by (cases "pop_back v w")
    show ?thesis
    proof (cases r1)
      case (Normal u)
      with True p "1.prems"(1) have rest: "erase_range_pops (i + 1) n v1 w1 = (r, v', w')"
        by (simp add: erase_range_pops_step)
      from pop_back_inv [OF p _ "1.prems"(3,4)] Normal have "rep_ok v1" "heap_ok w1"
        by simp_all
      from "1.IH" [OF True p [symmetric] Normal refl rest "1.prems"(2) this] show ?thesis .
    next
      case (Throw e)
      with pop_back_cases [OF p] show ?thesis
        by simp
    next
      case Undefined
      with True p "1.prems"(1,2) show ?thesis
        by (simp add: erase_range_pops_step)
    qed
  qed
qed

lemma insert_vec_inv:
  assumes "insert_vec pos x v w = (r, v', w')" and "r \<noteq> Undefined" and "rep_ok v" and "heap_ok w"
  shows "rep_ok v' \<and> heap_ok w'"
proof (cases "ptr_diff pos (begin_vec v)")
  case None
  with assms show ?thesis
    by (simp add: insert_vec_def)
next
  case (Some d)
  obtain r1 v1 w1 where p: "push_back x v w = (r1, v1, w1)"
    by (cases "push_back x v w")
  show ?thesis
  proof (cases r1)
    case Undefined
    with assms(1,2) Some p show ?thesis
      by (simp add: insert_vec_def)
  next
    case (Throw e)
    with assms(1) Some p have "v' = v1" "w' = w1"
      by (simp_all add: insert_vec_def)
    with push_back_inv [OF p _ assms(3,4)] Throw show ?thesis
      by simp
  next
    case (Normal u)
    with push_back_inv [OF p _ assms(3,4)] have i1: "rep_ok v1" "heap_ok w1"
      by simp_all
    obtain r2 w2 where l: "insert_loop (word_of_int d) (size_m v1 - 1) v1 w1 = (r2, w2)"
      by (cases "insert_loop (word_of_int d) (size_m v1 - 1) v1 w1")
    with assms(1) Some p Normal have "v' = v1" "w' = w2"
      by (cases r2; simp add: insert_vec_def)+
    with i1 insert_loop_heap_ok [OF l] show ?thesis
      by simp
  qed
qed

lemma erase_inv:
  assumes "erase pos v w = (r, v', w')" and "r \<noteq> Undefined" and "rep_ok v" and "heap_ok w"
  shows "rep_ok v' \<and> heap_ok w'"
proof (cases "ptr_diff pos (begin_vec v)")
  case None
  with assms show ?thesis
    by (simp add: erase_def)
next
  case (Some d)
  obtain r1 w1 where l: "erase_loop (word_of_int d) v w = (r1, w1)"
    by (cases "erase_loop (word_of_int d) v w")
  note h1 = erase_loop_heap_ok [OF l assms(4)]
  show ?thesis
  proof (cases r1)
    case Undefined
    with assms(1,2) Some l show ?thesis
      by (simp add: erase_def)
  next
    case (Throw e)
    with assms(1) Some l have "v' = v" "w' = w1"
      by (simp_all add: erase_def)
    with h1 assms(3) show ?thesis
      by simp
  next
    case (Normal u)
    obtain r2 v2 w2 where p: "pop_back v w1 = (r2, v2, w2)"
      by (cases "pop_back v w1")
    with assms(1,2) Some l Normal have "r2 \<noteq> Undefined" "v' = v2" "w' = w2"
      by (cases r2; simp add: erase_def)+
    with pop_back_inv [OF p _ assms(3) h1] show ?thesis
      by simp
  qed
qed

lemma erase_range_inv:
  assumes "erase_range first last' v w = (r, v', w')" and "r \<noteq> Undefined"
    and "rep_ok v" and "heap_ok w"
  shows "rep_ok v' \<and> heap_ok w'"
proof -
  obtain r1 w1 where l: "erase_range_loop first last' v w = (r1, w1)"
    by (cases "erase_range_loop first last' v w")
  note h1 = erase_range_loop_heap_ok [OF l assms(4)]
  show ?thesis
  proof (cases r1)
    case Undefined
    with assms(1,2) l show ?thesis
      by (simp add: erase_range_def)
  next
    case (Throw e)
    with assms(1) l have "v' = v" "w' = w1"
      by (simp_all add: erase_range_def)
    with h1 assms(3) show ?thesis
      by simp
  next
    case (Normal u)
    show ?thesis
    proof (cases "ptr_diff last' first")
      case None
      with assms(1,2) l Normal show ?thesis
        by (simp add: erase_range_def)
    next
      case (Some d)
      obtain r2 v2 w2 where p: "erase_range_pops 0 (word_of_int d) v w1 = (r2, v2, w2)"
        by (cases "erase_range_pops 0 (word_of_int d) v w1")
      with assms(1,2) l Normal Some have "r2 \<noteq> Undefined" "v' = v2" "w' = w2"
        by (cases r2; simp add: erase_range_def)+
      with erase_range_pops_inv [OF p _ assms(3) h1] show ?thesis
        by simp
    qed
  qed
qed


lemma operator_assign_inv:
  assumes "operator_assign a b s w = (r, s', w')" and "r \<noteq> Undefined" and "heap_ok w"
    and "\<forall>c v. s c = Some v \<longrightarrow> rep_ok v"
  shows "heap_ok w' \<and> (\<forall>c v. s' c = Some v \<longrightarrow> rep_ok v)"
proof (cases "a = b")
  case True
  with assms show ?thesis
    by (simp add: operator_assign_def)
next
  case False
  from assms(1,2) False obtain t ot where t: "s a = Some t" and ot: "s b = Some ot"
    by (cases "s a"; cases "s b") (auto simp: operator_assign_def)
  obtain r1 w1 where c: "vector_copy_ctor ot w = (r1, w1)"
    by (cases "vector_copy_ctor ot w")
  from vector_copy_ctor_inv [OF c assms(3)] have h1: "heap_ok w1"
    and v: "\<forall>v. r1 = Normal v \<longrightarrow>
        v = \<lparr>data_m = Ptr (Suc (allocs w)) 0, size_m = size_m ot, capacity_m = capacity_m ot\<rparr>"
    by simp_all
  show ?thesis
  proof (cases r1)
    case Undefined
    with assms(1,2) False t ot c show ?thesis
      by (simp add: operator_assign_def)
  next
    case (Throw e)
    with assms(1) False t ot c have "s' = s" "w' = w1"
      by (simp_all add: operator_assign_def)
    with h1 assms(4) show ?thesis
      by simp
  next
    case (Normal tmp)
    obtain r2 w2 where d: "vector_dtor t w1 = (r2, w2)"
      by (cases "vector_dtor t w1")
    from assms(1) False t ot c Normal d have s': "s' = s(a \<mapsto> tmp)" and w': "w' = w2"
      by (simp_all add: operator_assign_def)
    from assms(4) ot have "rep_ok ot"
      by blast
    with v Normal have "rep_ok tmp"
      by (auto simp: rep_ok_def nullptr_def)
    with assms(4) vector_dtor_frame [OF d] h1 show ?thesis
      by (auto simp: s' w')
  qed
qed

lemma reachable_inv:
  "reachable s w \<Longrightarrow> heap_ok w \<and> (\<forall>c v. s c = Some v \<longrightarrow> rep_ok v)"
proof (induction rule: reachable.induct)
  case (start w)
  then show ?case
    by (simp add: heap_ok_def)
next
  case (default_construct s w a)
  then show ?case
    by simp
next
  case (copy_construct s w a b other v w')
  from copy_construct.IH copy_construct.hyps(3) have "rep_ok other"
    by blast
  with vector_copy_ctor_inv [OF copy_construct.hyps(4)] copy_construct.IH show ?case
    by (auto simp: rep_ok_def nullptr_def)
next
  case (copy_construct_throws s w b other e w')
  with vector_copy_ctor_inv [OF copy_construct_throws.hyps(3)] show ?case
    by simp
next
  case (destruct s w a v w')
  with vector_dtor_frame [OF destruct.hyps(3)] show ?case
    by simp
next
  case (copy_assign s w a b r s' w')
  with operator_assign_inv [OF copy_assign.hyps(2,3)] show ?case
    by blast
next
  case (do_push_back s w a v x r v' w')
  with push_back_inv [OF do_push_back.hyps(3,4)] show ?case
    by simp
next
  case (do_pop_back s w a v r v' w')
  with pop_back_inv [OF do_pop_back.hyps(3,4)] show ?case
    by simp
next
  case (do_reserve s w a v n r v' w')
  with reserve_inv [OF do_reserve.hyps(3,4)] show ?case
    by simp
next
  case (do_shrink_to_fit s w a v r v' w')
  with shrink_to_fit_inv [OF do_shrink_to_fit.hyps(3,4)] show ?case
    by simp
next
  case (do_clear s w a v r v' w')
  with clear_inv [OF do_clear.hyps(3,4)] show ?case
    by simp
next
  case (do_swap s w a v b u v' u')
  then show ?case
    by auto
next
  case (do_insert s w a v pos x ri v' w')
  with insert_vec_inv [OF do_insert.hyps(3,4)] show ?case
    by simp
next
  case (do_erase s w a v pos ri v' w')
  with erase_inv [OF do_erase.hyps(3,4)] show ?case
    by simp
next
  case (do_erase_range s w a v first last' ri v' w')
  with erase_range_inv [OF do_erase_range.hyps(3,4)] show ?case
    by simp
qed

text \<open>
  C2, amended. In every reachable state, every vector with a capacity above 0 has a
  non-null buffer pointer, and every vector with capacity 0 has length 0.
\<close>

theorem reachable_invariant:
  assumes "reachable s w" and "s a = Some v"
  shows "(capacity v \<noteq> 0 \<longrightarrow> data_m v \<noteq> nullptr) \<and> (capacity v = 0 \<longrightarrow> size_vec v = 0)"
  using reachable_inv [OF assms(1)] assms(2)
  by (auto simp: rep_ok_def capacity_def size_vec_def)

theorem reachable_invariant_witness:
  "reachable ((\<lambda>a. None)(0 \<mapsto> \<lparr>data_m = Ptr 1 0, size_m = 1, capacity_m = 1\<rparr>))
     (snd (snd (push_back (5::int) vector_ctor (fresh_world (\<lambda>i. False) (\<lambda>i. False))))) \<and>
   data_m \<lparr>data_m = Ptr 1 0, size_m = 1, capacity_m = 1\<rparr> \<noteq> nullptr"
proof -
  let ?W = "fresh_world (\<lambda>i. False) (\<lambda>i. False) :: int world"
  let ?V = "\<lparr>data_m = Ptr 1 0, size_m = 1, capacity_m = 1\<rparr>"
  let ?run = "push_back (5::int) vector_ctor ?W"
  have "fst ?run = Normal ()" "fst (snd ?run) = ?V"
    by code_simp+
  then have run: "?run = (Normal (), ?V, snd (snd ?run))"
    by (metis prod.collapse)
  have "reachable (\<lambda>a. None) ?W"
    by (rule reachable.start) (simp add: fresh_world_def)
  then have "reachable ((\<lambda>a. None)(0 \<mapsto> vector_ctor)) ?W"
    by (rule reachable.default_construct) simp
  from reachable.do_push_back [OF this _ run, of 0]
  have reach: "reachable ((\<lambda>a. None)(0 \<mapsto> ?V)) (snd (snd ?run))"
    by simp
  from reachable_invariant [OF reach, of 0 ?V] have "data_m ?V \<noteq> nullptr"
    by (simp add: capacity_def)
  with reach show ?thesis
    by simp
qed

text \<open>
  C2 as stated fails. The copy of a default-constructed vector is reachable, its buffer
  pointer is the block that \<^verbatim>\<open>operator new(0)\<close> returned, and its capacity is 0.
\<close>

theorem copy_of_empty_breaks_iff:
  "reachable ((\<lambda>a. None)(0 \<mapsto> vector_ctor, 1 \<mapsto> \<lparr>data_m = Ptr 1 0, size_m = 0, capacity_m = 0\<rparr>))
     (snd (vector_copy_ctor vector_ctor (fresh_world (\<lambda>i. False) (\<lambda>i. False) :: int world))) \<and>
   data_m \<lparr>data_m = Ptr 1 0, size_m = 0, capacity_m = 0\<rparr> \<noteq> nullptr \<and>
   \<not> 0 < capacity \<lparr>data_m = Ptr 1 0, size_m = 0, capacity_m = 0\<rparr>"
proof -
  let ?W = "fresh_world (\<lambda>i. False) (\<lambda>i. False) :: int world"
  let ?V = "\<lparr>data_m = Ptr 1 0, size_m = 0, capacity_m = 0\<rparr>"
  let ?run = "vector_copy_ctor vector_ctor ?W"
  have "fst ?run = Normal ?V"
    by code_simp
  then have run: "?run = (Normal ?V, snd ?run)"
    by (metis prod.collapse)
  have "reachable (\<lambda>a. None) ?W"
    by (rule reachable.start) (simp add: fresh_world_def)
  then have "reachable ((\<lambda>a. None)(0 \<mapsto> vector_ctor)) ?W"
    by (rule reachable.default_construct) simp
  from reachable.copy_construct [OF this _ _ run, of 1 0]
  have "reachable ((\<lambda>a. None)(0 \<mapsto> vector_ctor, 1 \<mapsto> ?V)) (snd ?run)"
    by simp
  then show ?thesis
    by (simp add: nullptr_def capacity_def)
qed


section \<open>reserve\<close>

lemma copy_construct_all_others:
  assumes "copy_construct_all dst src sz w = (Normal u, w')" and "blk dst \<noteq> blk src"
    and "\<forall>k<unat sz. q \<noteq> ptr_add dst (int k)"
  shows "slot w' q = slot w q"
proof -
  obtain r1 i1 w1 where l: "copy_construct_loop dst src sz 0 w = (r1, i1, w1)"
    by (cases "copy_construct_loop dst src sz 0 w")
  have "r1 = Normal () \<and> w1 = w'"
  proof (cases r1)
    case (Throw e)
    obtain r2 w2 where d: "destroy_all dst (to_int i1) w1 = (r2, w2)"
      by (cases "destroy_all dst (to_int i1) w1")
    with assms(1) l Throw show ?thesis
      by (cases r2) (simp_all add: copy_construct_all_def)
  qed (use assms(1) l in \<open>simp_all add: copy_construct_all_def\<close>)
  with l have "copy_construct_loop dst src sz 0 w = (Normal (), i1, w')"
    by simp
  from copy_construct_loop_Normal [OF this assms(2)] assms(3) show ?thesis
    by simp
qed

lemma new_buffer_slots:
  assumes "new_buffer n this w = (Normal u, this', w')" and "n \<noteq> 0"
    and "blk (data_m this) \<le> allocs w"
  shows "allocated this' w' = unat (n * sizeof_T w) div unat (sizeof_T w) \<and>
         (\<forall>k. unat (size_m this) \<le> k \<and> k < unat (n * sizeof_T w) div unat (sizeof_T w) \<longrightarrow>
            slot w' (ptr_add (data_m this') (int k)) = Some None)"
proof -
  define L where "L = unat (n * sizeof_T w) div unat (sizeof_T w)"
  define p where "p = Ptr (Suc (allocs w)) 0"
  define w1 where "w1 = w\<lparr>allocs := Suc (allocs w),
      blocks := (blocks w)(Suc (allocs w) \<mapsto> replicate L (None :: 'a option))\<rparr>"
  from new_buffer_NormalD [OF assms(1,2)] obtain w2 where
    b: "copy_construct_all p (data_m this) (size_m this) w1 = (Normal (), w2)"
    and c: "vector_dtor this w2 = (Normal u, w')"
    and this': "this' = \<lparr>data_m = p, size_m = size_m this, capacity_m = n\<rparr>"
    unfolding p_def w1_def L_def by blast
  from assms(3) have ne: "blk p \<noteq> blk (data_m this)"
    by (simp add: p_def)
  from vector_dtor_frame [OF c] ne have keep: "blocks w' (blk p) = blocks w2 (blk p)"
    by simp
  from same_shape_copy_construct_all [OF b]
  have "map_option length (blocks w2 (blk p)) = Some L"
    by (simp add: same_shape_def w1_def p_def)
  with keep have "allocated this' w' = L"
    by (auto simp: allocated_def room_def this' p_def split: option.splits)
  moreover have "slot w' (ptr_add p (int k)) = Some None" if "unat (size_m this) \<le> k" "k < L" for k
  proof -
    have "slot w' (ptr_add p (int k)) = slot w2 (ptr_add p (int k))"
      using keep by (intro slot_cong) simp
    also from that have "\<forall>j<unat (size_m this). ptr_add p (int k) \<noteq> ptr_add p (int j)"
      by auto
    with b ne have "slot w2 (ptr_add p (int k)) = slot w1 (ptr_add p (int k))"
      by (rule copy_construct_all_others)
    also from that have "\<dots> = Some None"
      by (simp add: slot_def w1_def p_def ptr_add_def)
    finally show ?thesis .
  qed
  ultimately show ?thesis
    by (simp add: L_def this')
qed

text \<open>
  C6. A \<open>reserve n\<close> that returns normally leaves the length and the elements, in
  value and order, as they were. With \<open>n\<close> at most the capacity it changes nothing at
  all, neither the vector nor the memory; with \<open>n\<close> above the capacity, the capacity
  is exactly \<open>n\<close> afterwards. That capacity is the size of the buffer: when the old
  buffer pointer is null or a block handed out before, elements have a size and \<open>n\<close>
  elements fit the address space (\<open>n * sizeof(T)\<close> does not wrap), the new buffer has
  exactly \<open>n\<close> slots, and those from the length on hold no object.
\<close>

theorem reserve_success:
  assumes "reserve n this w = (Normal u, this', w')" and "holds this w xs" and "heap_ok w"
  shows "size_vec this' = size_vec this \<and> holds this' w' xs \<and>
         (n \<le> capacity this \<longrightarrow> capacity this' = capacity this \<and> this' = this \<and> w' = w) \<and>
         (capacity this < n \<longrightarrow> capacity this' = n \<and>
            (blk (data_m this) \<le> allocs w \<and> sizeof_T w \<noteq> 0 \<and>
             unat n * unat (sizeof_T w) < 2 ^ 64 \<longrightarrow>
               allocated this' w' = unat (capacity this') \<and>
               (\<forall>k. unat (size_vec this') \<le> k \<and> k < unat (capacity this') \<longrightarrow>
                  slot w' (ptr_add (data_m this') (int k)) = Some None)))"
proof (cases "n \<le> capacity_m this")
  case True
  with assms show ?thesis
    by (auto simp: reserve_def capacity_def size_vec_def)
next
  case False
  then have "n \<noteq> 0"
    by auto
  from assms(1) False have nb: "new_buffer n this w = (Normal u, this', w')"
    by (simp add: reserve_def)
  from new_buffer_Normal [OF nb \<open>n \<noteq> 0\<close> assms(2,3)]
  have this': "this' = \<lparr>data_m = Ptr (Suc (allocs w)) 0, size_m = size_m this, capacity_m = n\<rparr>"
    and h': "holds this' w' xs"
    by blast+
  have "allocated this' w' = unat n \<and>
        (\<forall>k. unat (size_m this) \<le> k \<and> k < unat n \<longrightarrow>
           slot w' (ptr_add (data_m this') (int k)) = Some None)"
    if old: "blk (data_m this) \<le> allocs w" and sz: "sizeof_T w \<noteq> 0"
      and fit: "unat n * unat (sizeof_T w) < 2 ^ 64"
  proof -
    from fit have "unat (n * sizeof_T w) = unat n * unat (sizeof_T w)"
      by (simp add: unat_mult_lem [THEN iffD1])
    moreover from sz have "unat (sizeof_T w) \<noteq> 0"
      by (simp add: unat_eq_0)
    ultimately have "unat (n * sizeof_T w) div unat (sizeof_T w) = unat n"
      by simp
    with new_buffer_slots [OF nb \<open>n \<noteq> 0\<close> old] show ?thesis
      by simp
  qed
  with False this' h' show ?thesis
    by (simp add: capacity_def size_vec_def)
qed

theorem reserve_success_witness:
  "holds (fst (snd (reserve 10 \<lparr>data_m = Ptr 1 0, size_m = 3, capacity_m = 4\<rparr>
            (one_block [Some 1, Some 2, Some (3::int), None] (\<lambda>i. False) (\<lambda>i. False)))))
         (snd (snd (reserve 10 \<lparr>data_m = Ptr 1 0, size_m = 3, capacity_m = 4\<rparr>
            (one_block [Some 1, Some 2, Some (3::int), None] (\<lambda>i. False) (\<lambda>i. False)))))
         [1, 2, 3] \<and>
   capacity (fst (snd (reserve 10 \<lparr>data_m = Ptr 1 0, size_m = 3, capacity_m = 4\<rparr>
            (one_block [Some 1, Some 2, Some (3::int), None] (\<lambda>i. False) (\<lambda>i. False))))) = 10 \<and>
   allocated (fst (snd (reserve 10 \<lparr>data_m = Ptr 1 0, size_m = 3, capacity_m = 4\<rparr>
            (one_block [Some 1, Some 2, Some (3::int), None] (\<lambda>i. False) (\<lambda>i. False)))))
         (snd (snd (reserve 10 \<lparr>data_m = Ptr 1 0, size_m = 3, capacity_m = 4\<rparr>
            (one_block [Some 1, Some 2, Some (3::int), None] (\<lambda>i. False) (\<lambda>i. False))))) = 10"
proof -
  let ?v = "\<lparr>data_m = Ptr 1 0, size_m = 3, capacity_m = 4\<rparr>"
  let ?w = "one_block [Some 1, Some 2, Some (3::int), None] (\<lambda>i. False) (\<lambda>i. False)"
  have "fst (reserve 10 ?v ?w) = Normal ()"
    by code_simp
  then have run: "reserve 10 ?v ?w = (Normal (), fst (snd (reserve 10 ?v ?w)), snd (snd (reserve 10 ?v ?w)))"
    by (metis prod.collapse)
  have h: "holds ?v ?w [1, 2, 3]"
    by code_simp
  have ok: "heap_ok ?w"
    by (simp add: heap_ok_def one_block_def)
  have c: "capacity ?v < 10"
    by (simp add: capacity_def)
  have fit: "blk (data_m ?v) \<le> allocs ?w \<and> sizeof_T ?w \<noteq> 0 \<and>
      unat (10 :: size_t) * unat (sizeof_T ?w) < 2 ^ 64"
    by (simp add: one_block_def)
  from reserve_success [OF run h ok] c fit show ?thesis
    by simp
qed

text \<open>
  C5. The vector holds \<open>xs\<close>. When \<open>reserve n\<close> ends with an exception, the request
  was above the capacity and the vector is as before the call: the same buffer, length
  and capacity, and the same elements in the same order. And a failure does end the call
  with that exception: when \<^verbatim>\<open>operator new\<close> throws, \<open>reserve\<close> throws the same, and
  when the copy of some element \<open>k\<close> into the new buffer throws, \<open>reserve\<close> throws the
  same.
\<close>

theorem reserve_failure:
  assumes "holds this w xs" and "heap_ok w"
  shows "(\<forall>e this' w'. reserve n this w = (Throw e, this', w') \<longrightarrow>
            capacity this < n \<and> this' = this \<and> size_vec this' = size_vec this \<and>
            capacity this' = capacity this \<and> holds this' w' xs) \<and>
         (\<forall>e w1. capacity this < n \<and> operator_new (n * sizeof_T w) w = (Throw e, w1) \<longrightarrow>
            reserve n this w = (Throw e, this, w1)) \<and>
         (\<forall>p w1 e k w2. capacity this < n \<and> operator_new (n * sizeof_T w) w = (Normal p, w1) \<and>
            copy_construct_loop p (data_m this) (size_m this) 0 w1 = (Throw e, k, w2) \<longrightarrow>
            fst (reserve n this w) = Throw e)"
proof (intro conjI allI impI; (elim conjE)?)
  fix e this' w' assume r: "reserve n this w = (Throw e, this', w')"
  then have gt: "\<not> n \<le> capacity_m this"
    by (auto simp: reserve_def split: if_splits)
  with r have "new_buffer n this w = (Throw e, this', w')"
    by (simp add: reserve_def)
  from new_buffer_Throw [OF this assms] gt
  show "capacity this < n" "this' = this" "size_vec this' = size_vec this"
    "capacity this' = capacity this" "holds this' w' xs"
    by (simp_all add: capacity_def)
next
  fix e w1 assume "capacity this < n" and "operator_new (n * sizeof_T w) w = (Throw e, w1)"
  then show "reserve n this w = (Throw e, this, w1)"
    by (auto simp: reserve_def capacity_def new_buffer_unfold)
next
  fix p w1 e k w2
  assume gt: "capacity this < n" and new: "operator_new (n * sizeof_T w) w = (Normal p, w1)"
    and loop: "copy_construct_loop p (data_m this) (size_m this) 0 w1 = (Throw e, k, w2)"
  from gt have "n \<noteq> 0"
    by auto
  from new_buffer_copy_throws [OF this new loop] gt show "fst (reserve n this w) = Throw e"
    by (auto simp: reserve_def capacity_def)
qed

theorem reserve_failure_witness:
  "fst (reserve 6 \<lparr>data_m = Ptr 1 0, size_m = 3, capacity_m = 3\<rparr>
          (one_block [Some 1, Some 2, Some (3::int)] (\<lambda>i. False) (\<lambda>i. i = 1)))
     = Throw ElementOperationFailure \<and>
   fst (snd (reserve 6 \<lparr>data_m = Ptr 1 0, size_m = 3, capacity_m = 3\<rparr>
          (one_block [Some 1, Some 2, Some (3::int)] (\<lambda>i. False) (\<lambda>i. i = 1))))
     = \<lparr>data_m = Ptr 1 0, size_m = 3, capacity_m = 3\<rparr> \<and>
   holds (fst (snd (reserve 6 \<lparr>data_m = Ptr 1 0, size_m = 3, capacity_m = 3\<rparr>
          (one_block [Some 1, Some 2, Some (3::int)] (\<lambda>i. False) (\<lambda>i. i = 1)))))
     (snd (snd (reserve 6 \<lparr>data_m = Ptr 1 0, size_m = 3, capacity_m = 3\<rparr>
          (one_block [Some 1, Some 2, Some (3::int)] (\<lambda>i. False) (\<lambda>i. i = 1)))))
     [1, 2, 3]"
proof -
  let ?v = "\<lparr>data_m = Ptr 1 0, size_m = 3, capacity_m = 3\<rparr>"
  let ?w = "one_block [Some 1, Some 2, Some (3::int)] (\<lambda>i. False) (\<lambda>i. i = 1)"
  have r: "fst (reserve 6 ?v ?w) = Throw ElementOperationFailure"
    by code_simp
  then have run: "reserve 6 ?v ?w =
      (Throw ElementOperationFailure, fst (snd (reserve 6 ?v ?w)), snd (snd (reserve 6 ?v ?w)))"
    by (metis prod.collapse)
  have h: "holds ?v ?w [1, 2, 3]"
    by code_simp
  have ok: "heap_ok ?w"
    by (simp add: heap_ok_def one_block_def)
  from reserve_failure [OF h ok, of 6] run r show ?thesis
    by blast
qed

section \<open>Copy assignment\<close>

text \<open>
  C9. Assigning a vector to itself returns at once: every vector object, and with it the
  length and capacity of the assigned one, and the whole memory, and with it the
  elements, are what they were.
\<close>

theorem self_assignment:
  "operator_assign a a s w = (Normal (), s, w)"
  by (simp add: operator_assign_def)

section \<open>data\<close>

text \<open>
  C1. The copy of a default-constructed vector has capacity 0 and owns the block that
  \<^verbatim>\<open>operator new(0)\<close> returned. On it the mutable \<^verbatim>\<open>data()\<close> returns the null pointer,
  and the const \<^verbatim>\<open>data()\<close>, which lacks the capacity test, returns the block.
\<close>

theorem data_const_of_empty_copy:
  "fst (vector_copy_ctor vector_ctor (fresh_world (\<lambda>i. False) (\<lambda>i. False) :: int world))
     = Normal \<lparr>data_m = Ptr 1 0, size_m = 0, capacity_m = 0\<rparr> \<and>
   capacity \<lparr>data_m = Ptr 1 0, size_m = 0, capacity_m = 0\<rparr> = 0 \<and>
   data \<lparr>data_m = Ptr 1 0, size_m = 0, capacity_m = 0\<rparr> = nullptr \<and>
   data_const \<lparr>data_m = Ptr 1 0, size_m = 0, capacity_m = 0\<rparr> = Ptr 1 0 \<and>
   Ptr 1 0 \<noteq> nullptr"
  by code_simp

section \<open>The other operations\<close>

text \<open>
  What the remaining operations do to the elements, each stated for a call that returns
  normally on a vector that holds \<open>xs\<close>.
\<close>

subsection \<open>The rollback below \<open>2 ^ 31\<close> elements\<close>

text \<open>
  When the copy of element \<open>k\<close> throws and \<open>k\<close> is below \<open>2 ^ 31\<close>, the conversion
  of \<open>k\<close> to \<^verbatim>\<open>int\<close> keeps its value: \<open>copy_construct_all\<close> destroys the \<open>k\<close> copies
  it made and rethrows, every slot is as before the call, and so is the number of live
  objects.
\<close>

theorem failed_copy_rolls_back:
  assumes "copy_construct_loop dst src sz 0 w = (Throw e, k, w1)" and "unat k < 2 ^ 31"
  shows "\<exists>w'. copy_construct_all dst src sz w = (Throw e, w') \<and>
           (\<forall>q. slot w' q = slot w q) \<and> live w' = live w"
  using copy_construct_all_rollback [OF assms(1)] assms(2) by blast

theorem failed_copy_rolls_back_witness:
  "fst (copy_construct_all (Ptr 2 0) (Ptr 1 0) 3
          (snd (operator_new 12 (one_block [Some 1, Some 2, Some (3::int)] (\<lambda>i. False) (\<lambda>i. i = 2)))))
     = Throw ElementOperationFailure \<and>
   live (snd (copy_construct_all (Ptr 2 0) (Ptr 1 0) 3
          (snd (operator_new 12 (one_block [Some 1, Some 2, Some (3::int)] (\<lambda>i. False) (\<lambda>i. i = 2))))))
     = live (snd (operator_new 12 (one_block [Some 1, Some 2, Some (3::int)] (\<lambda>i. False) (\<lambda>i. i = 2))))"
proof -
  let ?W = "snd (operator_new 12 (one_block [Some 1, Some 2, Some (3::int)] (\<lambda>i. False) (\<lambda>i. i = 2)))"
  let ?loop = "copy_construct_loop (Ptr 2 0) (Ptr 1 0) 3 0 ?W"
  have "fst ?loop = Throw ElementOperationFailure" "fst (snd ?loop) = 2"
    by code_simp+
  then have loop: "?loop = (Throw ElementOperationFailure, 2, snd (snd ?loop))"
    by (metis prod.collapse)
  have "unat (2 :: size_t) < 2 ^ 31"
    by simp
  from failed_copy_rolls_back [OF loop this] show ?thesis
    by auto
qed

subsection \<open>The copy constructor\<close>

lemma vector_copy_ctor_NormalD:
  assumes "vector_copy_ctor other w = (Normal v, w')"
  shows "copy_construct_all (Ptr (Suc (allocs w)) 0) (data_m other) (size_m other)
             (w\<lparr>allocs := Suc (allocs w),
                blocks := (blocks w)(Suc (allocs w) \<mapsto>
                  replicate (unat (capacity_m other * sizeof_T w) div unat (sizeof_T w)) None)\<rparr>)
           = (Normal (), w') \<and>
         v = \<lparr>data_m = Ptr (Suc (allocs w)) 0, size_m = size_m other, capacity_m = capacity_m other\<rparr>"
proof -
  define p where "p = Ptr (Suc (allocs w)) 0"
  define w1 where "w1 = w\<lparr>allocs := Suc (allocs w),
            blocks := (blocks w)(Suc (allocs w) \<mapsto>
              replicate (unat (capacity_m other * sizeof_T w) div unat (sizeof_T w)) None)\<rparr>"
  obtain r1 w1' where a: "operator_new (capacity_m other * sizeof_T w) w = (r1, w1')"
    by (cases "operator_new (capacity_m other * sizeof_T w) w")
  from a assms obtain p' where "r1 = Normal p'"
    by (cases r1) (simp_all add: vector_copy_ctor_def)
  with a have a': "operator_new (capacity_m other * sizeof_T w) w = (Normal p, w1)"
    by (simp add: operator_new_Normal p_def w1_def)
  obtain r2 w2 where b: "copy_construct_all p (data_m other) (size_m other) w1 = (r2, w2)"
    by (cases "copy_construct_all p (data_m other) (size_m other) w1")
  have "r2 = Normal () \<and> w2 = w' \<and> v = \<lparr>data_m = p, size_m = size_m other, capacity_m = capacity_m other\<rparr>"
  proof (cases r2)
    case (Throw e)
    obtain r3 w3 where "operator_delete p w2 = (r3, w3)"
      by (cases "operator_delete p w2")
    with a' b Throw assms show ?thesis
      by (cases r3) (simp_all add: vector_copy_ctor_def)
  qed (use a' b assms in \<open>auto simp: vector_copy_ctor_def\<close>)
  with b show ?thesis
    unfolding p_def w1_def by simp
qed

text \<open>
  A copy that returns normally holds the elements of the original, with its length and
  capacity, the original still holds them, and where there are elements the two buffers
  are different blocks.
\<close>

theorem copy_is_deep:
  assumes "vector_copy_ctor other w = (Normal v, w')" and "holds other w xs" and "heap_ok w"
  shows "holds v w' xs \<and> holds other w' xs \<and> size_vec v = size_vec other \<and>
         capacity v = capacity other \<and> (xs \<noteq> [] \<longrightarrow> blk (data_m v) \<noteq> blk (data_m other))"
proof -
  define p where "p = Ptr (Suc (allocs w)) 0"
  define w1 where "w1 = w\<lparr>allocs := Suc (allocs w),
            blocks := (blocks w)(Suc (allocs w) \<mapsto>
              replicate (unat (capacity_m other * sizeof_T w) div unat (sizeof_T w)) None)\<rparr>"
  from vector_copy_ctor_NormalD [OF assms(1)]
  have b: "copy_construct_all p (data_m other) (size_m other) w1 = (Normal (), w')"
    and v: "v = \<lparr>data_m = p, size_m = size_m other, capacity_m = capacity_m other\<rparr>"
    by (simp_all add: p_def w1_def)
  have ne: "blk p \<noteq> blk (data_m other)" if "xs \<noteq> []"
    using holds_block [OF assms(2) that assms(3)] by (simp add: p_def)
  have same1: "slot w1 (ptr_add (data_m other) k) = slot w (ptr_add (data_m other) k)" if "xs \<noteq> []" for k
    using ne [OF that] by (intro slot_cong) (simp add: w1_def p_def)
  have keep: "holds other w' xs"
  proof (rule holds_frame [OF assms(2)])
    assume "xs \<noteq> []"
    from ne [OF this] copy_construct_all_frame [OF b]
    have "blocks w' (blk (data_m other)) = blocks w1 (blk (data_m other))"
      by simp
    also have "\<dots> = blocks w (blk (data_m other))"
      using ne [OF \<open>xs \<noteq> []\<close>] by (simp add: w1_def p_def)
    finally show "blocks w' (blk (data_m other)) = blocks w (blk (data_m other))" .
  qed
  have "holds v w' xs"
  proof (cases "xs = []")
    case True
    with assms(2) show ?thesis
      by (simp add: holds_iff v)
  next
    case False
    from copy_construct_all_Normal [OF b ne [OF False]] assms(2) same1 [OF False] show ?thesis
      by (auto simp: holds_iff v)
  qed
  with keep ne show ?thesis
    by (simp add: v size_vec_def capacity_def)
qed

theorem copy_is_deep_witness:
  "holds \<lparr>data_m = Ptr 2 0, size_m = 3, capacity_m = 4\<rparr>
     (snd (vector_copy_ctor \<lparr>data_m = Ptr 1 0, size_m = 3, capacity_m = 4\<rparr>
            (one_block [Some 1, Some 2, Some (3::int), None] (\<lambda>i. False) (\<lambda>i. False))))
     [1, 2, 3] \<and>
   holds \<lparr>data_m = Ptr 1 0, size_m = 3, capacity_m = 4\<rparr>
     (snd (vector_copy_ctor \<lparr>data_m = Ptr 1 0, size_m = 3, capacity_m = 4\<rparr>
            (one_block [Some 1, Some 2, Some (3::int), None] (\<lambda>i. False) (\<lambda>i. False))))
     [1, 2, 3]"
proof -
  let ?v = "\<lparr>data_m = Ptr 1 0, size_m = 3, capacity_m = 4\<rparr>"
  let ?w = "one_block [Some 1, Some 2, Some (3::int), None] (\<lambda>i. False) (\<lambda>i. False)"
  have "fst (vector_copy_ctor ?v ?w) = Normal \<lparr>data_m = Ptr 2 0, size_m = 3, capacity_m = 4\<rparr>"
    by code_simp
  then have run: "vector_copy_ctor ?v ?w =
      (Normal \<lparr>data_m = Ptr 2 0, size_m = 3, capacity_m = 4\<rparr>, snd (vector_copy_ctor ?v ?w))"
    by (metis prod.collapse)
  have h: "holds ?v ?w [1, 2, 3]"
    by code_simp
  have ok: "heap_ok ?w"
    by (simp add: heap_ok_def one_block_def)
  from copy_is_deep [OF run h ok] show ?thesis
    by simp
qed

subsection \<open>shrink_to_fit, push_back and pop_back\<close>

text \<open>
  After \<open>shrink_to_fit\<close> the capacity is the length, and the elements are as before.
\<close>

theorem shrink_to_fit_success:
  assumes "shrink_to_fit this w = (Normal u, this', w')" and "holds this w xs"
    and "heap_ok w" and "size_vec this \<le> capacity this"
  shows "capacity this' = size_vec this' \<and> size_vec this' = size_vec this \<and> holds this' w' xs"
proof (cases "size_m this < capacity_m this")
  case True
  with assms(1) have nb: "new_buffer (size_m this) this w = (Normal u, this', w')"
    by (simp add: shrink_to_fit_def)
  show ?thesis
  proof (cases "size_m this = 0")
    case True
    with nb have "this' = vector_ctor"
      by (auto simp: new_buffer_unfold split: prod.splits outcome.splits)
    moreover from True holds_size [OF assms(2)] have "xs = []"
      by simp
    ultimately show ?thesis
      using True by (simp add: holds_iff vector_ctor_def size_vec_def capacity_def)
  next
    case False
    from new_buffer_Normal [OF nb False assms(2,3)]
    have "this' = \<lparr>data_m = Ptr (Suc (allocs w)) 0, size_m = size_m this, capacity_m = size_m this\<rparr>"
      and "holds this' w' xs"
      by blast+
    then show ?thesis
      by (simp add: size_vec_def capacity_def)
  qed
next
  case False
  with assms show ?thesis
    by (auto simp: shrink_to_fit_def size_vec_def capacity_def)
qed

theorem shrink_to_fit_success_witness:
  "capacity \<lparr>data_m = Ptr 2 0, size_m = 3, capacity_m = 3\<rparr> = size_vec \<lparr>data_m = Ptr 2 0, size_m = 3, capacity_m = 3\<rparr> \<and>
   holds \<lparr>data_m = Ptr 2 0, size_m = 3, capacity_m = 3\<rparr>
     (snd (snd (shrink_to_fit \<lparr>data_m = Ptr 1 0, size_m = 3, capacity_m = 4\<rparr>
        (one_block [Some 1, Some 2, Some (3::int), None] (\<lambda>i. False) (\<lambda>i. False)))))
     [1, 2, 3]"
proof -
  let ?v = "\<lparr>data_m = Ptr 1 0, size_m = 3, capacity_m = 4\<rparr>"
  let ?w = "one_block [Some 1, Some 2, Some (3::int), None] (\<lambda>i. False) (\<lambda>i. False)"
  let ?run = "shrink_to_fit ?v ?w"
  have "fst ?run = Normal ()" "fst (snd ?run) = \<lparr>data_m = Ptr 2 0, size_m = 3, capacity_m = 3\<rparr>"
    by code_simp+
  then have run: "?run = (Normal (), \<lparr>data_m = Ptr 2 0, size_m = 3, capacity_m = 3\<rparr>, snd (snd ?run))"
    by (metis prod.collapse)
  have h: "holds ?v ?w [1, 2, 3]"
    by code_simp
  have ok: "heap_ok ?w"
    by (simp add: heap_ok_def one_block_def)
  have "size_vec ?v \<le> capacity ?v"
    by (simp add: size_vec_def capacity_def)
  from shrink_to_fit_success [OF run h ok this] show ?thesis
    by simp
qed

text \<open>
  \<open>push_back\<close> appends its argument and adds one to the length; with room left it
  keeps the buffer and the capacity.
\<close>

theorem push_back_appends:
  assumes "push_back val this w = (Normal u, this', w')" and "holds this w xs" and "heap_ok w"
  shows "holds this' w' (xs @ [val]) \<and> size_vec this' = size_vec this + 1 \<and>
         (size_vec this \<noteq> capacity this \<longrightarrow>
            capacity this' = capacity this \<and> data_m this' = data_m this)"
proof -
  from push_back_Normal [OF assms] have "holds this' w' (xs @ [val])"
    "size_m this' = size_m this + 1"
    "size_m this \<noteq> capacity_m this \<longrightarrow> capacity_m this' = capacity_m this"
    by simp_all
  moreover have "data_m this' = data_m this" if "size_m this \<noteq> capacity_m this"
    using assms(1) that
    by (auto simp: push_back_def split: prod.splits outcome.splits)
  ultimately show ?thesis
    by (simp add: size_vec_def capacity_def)
qed

theorem push_back_appends_witness:
  "holds \<lparr>data_m = Ptr 1 0, size_m = 4, capacity_m = 4\<rparr>
     (snd (snd (push_back 7 \<lparr>data_m = Ptr 1 0, size_m = 3, capacity_m = 4\<rparr>
        (one_block [Some 1, Some 2, Some (3::int), None] (\<lambda>i. False) (\<lambda>i. False)))))
     [1, 2, 3, 7]"
proof -
  let ?v = "\<lparr>data_m = Ptr 1 0, size_m = 3, capacity_m = 4\<rparr>"
  let ?w = "one_block [Some 1, Some 2, Some (3::int), None] (\<lambda>i. False) (\<lambda>i. False)"
  let ?run = "push_back 7 ?v ?w"
  have "fst ?run = Normal ()" "fst (snd ?run) = \<lparr>data_m = Ptr 1 0, size_m = 4, capacity_m = 4\<rparr>"
    by code_simp+
  then have run: "?run = (Normal (), \<lparr>data_m = Ptr 1 0, size_m = 4, capacity_m = 4\<rparr>, snd (snd ?run))"
    by (metis prod.collapse)
  have h: "holds ?v ?w [1, 2, 3]"
    by code_simp
  have ok: "heap_ok ?w"
    by (simp add: heap_ok_def one_block_def)
  from push_back_appends [OF run h ok] show ?thesis
    by simp
qed

text \<open>
  \<open>pop_back\<close> on a vector with elements destroys the last one: the others stay, the
  length goes down by one, the buffer and the capacity stay.
\<close>

theorem pop_back_removes_last:
  assumes "pop_back this w = (Normal u, this', w')" and "holds this w xs" and "xs \<noteq> []"
  shows "holds this' w' (butlast xs) \<and> size_vec this' = size_vec this - 1 \<and>
         capacity this' = capacity this \<and> data_m this' = data_m this \<and> live w' = live w - 1"
proof -
  from pop_back_Normal [OF assms] have "this' = this\<lparr>size_m := size_m this - 1\<rparr>"
    "holds this' w' (butlast xs)"
    by blast+
  moreover from pop_back_cases [OF assms(1)] have "live w' = live w - 1"
    by auto
  ultimately show ?thesis
    by (simp add: size_vec_def capacity_def)
qed

theorem pop_back_removes_last_witness:
  "holds \<lparr>data_m = Ptr 1 0, size_m = 2, capacity_m = 4\<rparr>
     (snd (snd (pop_back \<lparr>data_m = Ptr 1 0, size_m = 3, capacity_m = 4\<rparr>
        (one_block [Some 1, Some 2, Some (3::int), None] (\<lambda>i. False) (\<lambda>i. False)))))
     [1, 2]"
proof -
  let ?v = "\<lparr>data_m = Ptr 1 0, size_m = 3, capacity_m = 4\<rparr>"
  let ?w = "one_block [Some 1, Some 2, Some (3::int), None] (\<lambda>i. False) (\<lambda>i. False)"
  let ?run = "pop_back ?v ?w"
  have "fst ?run = Normal ()" "fst (snd ?run) = \<lparr>data_m = Ptr 1 0, size_m = 2, capacity_m = 4\<rparr>"
    by code_simp+
  then have run: "?run = (Normal (), \<lparr>data_m = Ptr 1 0, size_m = 2, capacity_m = 4\<rparr>, snd (snd ?run))"
    by (metis prod.collapse)
  have h: "holds ?v ?w [1, 2, 3]"
    by code_simp
  have "[1, 2, 3::int] \<noteq> []"
    by simp
  from pop_back_removes_last [OF run h this] show ?thesis
    by simp
qed

subsection \<open>insert\<close>

text \<open>
  The loop of \<open>insert\<close> started at \<open>i\<close> brings the element at \<open>i\<close> down to \<open>ind\<close> and
  moves those from \<open>ind\<close> to \<open>i - 1\<close> up by one.
\<close>

lemma insert_loop_step:
  "i \<noteq> ind \<Longrightarrow> insert_loop ind i this w =
     (case std_swap (ptr_add (data_m this) (uint i)) (ptr_add (data_m this) (uint (i - 1))) w of
        (Normal u, w1) \<Rightarrow> insert_loop ind (i - 1) this w1
      | (Throw e, w1) \<Rightarrow> (Throw e, w1)
      | (Undefined, w1) \<Rightarrow> (Undefined, w1))"
  by (subst insert_loop.simps) simp

lemma insert_loop_stop: "insert_loop ind ind this w = (Normal (), w)"
  by (subst insert_loop.simps) simp

lemma insert_loop_Normal:
  "insert_loop ind i this w = (Normal u, w') \<Longrightarrow> unat ind \<le> unat i \<Longrightarrow>
     slot w' (ptr_add (data_m this) (int t)) =
       (if t = unat ind then slot w (ptr_add (data_m this) (int (unat i)))
        else if unat ind < t \<and> t \<le> unat i then slot w (ptr_add (data_m this) (int t - 1))
        else slot w (ptr_add (data_m this) (int t)))"
proof (induction ind i this w rule: insert_loop.induct)
  case (1 ind i this w)
  show ?case
  proof (cases "i = ind")
    case True
    with "1.prems" show ?thesis
      by (auto simp: insert_loop_stop)
  next
    case False
    define n where "n = unat i"
    define m where "m = unat ind"
    obtain r1 w1 where s: "std_swap (ptr_add (data_m this) (uint i)) (ptr_add (data_m this) (uint (i - 1))) w = (r1, w1)"
      by (cases "std_swap (ptr_add (data_m this) (uint i)) (ptr_add (data_m this) (uint (i - 1))) w")
    with False "1.prems"(1) have r1: "r1 = Normal ()"
      and rest: "insert_loop ind (i - 1) this w1 = (Normal u, w')"
      by (cases r1; simp add: insert_loop_step)+
    from False have "unat i \<noteq> unat ind"
      by (simp add: word_unat_eq_iff)
    with "1.prems"(2) have lt: "m < n"
      by (simp add: n_def m_def)
    then have "i \<noteq> 0"
      by (auto simp: n_def)
    then have u: "unat (i - 1) = n - 1"
      by (simp add: unat_minus_one n_def)
    with lt have le: "unat ind \<le> unat (i - 1)"
      by (simp add: m_def)
    have ui: "uint i = int n"
      by (simp add: n_def)
    have ui1: "uint (i - 1) = int n - 1"
      using u lt by (simp add: uint_eq_int [symmetric] int_ops del: of_nat_unat)
    note sw = std_swap_slot [OF s [unfolded r1 ui ui1]]
    from "1.IH" [OF False s [symmetric] r1 rest le]
    have IH: "slot w' (ptr_add (data_m this) (int t)) =
       (if t = m then slot w1 (ptr_add (data_m this) (int (n - 1)))
        else if m < t \<and> t \<le> n - 1 then slot w1 (ptr_add (data_m this) (int t - 1))
        else slot w1 (ptr_add (data_m this) (int t)))"
      by (simp only: u m_def)
    have n1: "int (n - 1) = int n - 1"
      using lt by simp
    show ?thesis
      unfolding IH n_def [symmetric] m_def [symmetric] n1 using lt
      by (auto simp: sw)
  qed
qed

text \<open>
  \<open>insert\<close> at position \<open>a\<close> of a vector holding \<open>xs\<close> leaves the value at index
  \<open>a\<close>, the elements before it in place and those from \<open>a\<close> on one further, and returns
  the position \<open>a\<close> of the buffer it ends with.
\<close>

theorem insert_success:
  assumes "insert_vec pos val this w = (Normal r, this', w')" and "holds this w xs"
    and "heap_ok w" and "pos = ptr_add (begin_vec this) (int a)" and "a \<le> length xs"
  shows "holds this' w' (take a xs @ val # drop a xs) \<and> size_vec this' = size_vec this + 1 \<and>
         r = ptr_add (begin_vec this') (int a)"
proof -
  define ind :: size_t where "ind = word_of_int (int a)"
  have d: "ptr_diff pos (begin_vec this) = Some (int a)"
    by (simp add: assms(4) ptr_diff_def)
  have len: "length xs = unat (size_m this)"
    using assms(2) by (rule holds_size)
  have "a < 2 ^ 64"
    using assms(5) len unsigned_less [of "size_m this", where 'a = nat] by simp
  then have ua: "unat ind = a"
    by (simp add: ind_def unat_of_nat)
  obtain r1 this1 w1 where p: "push_back val this w = (r1, this1, w1)"
    by (cases "push_back val this w")
  from assms(1) d p have r1: "r1 = Normal ()"
    by (cases r1) (simp_all add: insert_vec_def)
  note pb = push_back_Normal [OF p [unfolded r1] assms(2,3)]
  then have h1: "holds this1 w1 (xs @ [val])" and sz1: "size_m this1 = size_m this + 1"
    by blast+
  from holds_size [OF h1] len have u1: "unat (size_m this + 1) = Suc (unat (size_m this))"
    by (simp add: sz1)
  obtain r2 w2 where l: "insert_loop ind (size_m this1 - 1) this1 w1 = (r2, w2)"
    by (cases "insert_loop ind (size_m this1 - 1) this1 w1")
  from assms(1) d p r1 l have r2: "r2 = Normal ()" and this': "this' = this1" and w': "w' = w2"
    and r: "r = ptr_add (begin_vec this1) (uint ind)"
    by (cases r2; simp add: insert_vec_def ind_def Let_def)+
  have i0: "size_m this1 - 1 = size_m this"
    by (simp add: sz1)
  from l r2 i0 have l': "insert_loop ind (size_m this) this1 w1 = (Normal (), w2)"
    by simp
  have le: "unat ind \<le> unat (size_m this)"
    using assms(5) len ua by simp
  note sl = insert_loop_Normal [OF l' le, unfolded ua len [symmetric]]
  have "holds this1 w2 (take a xs @ val # drop a xs)"
    unfolding holds_iff
  proof (intro conjI allI impI)
    show "length (take a xs @ val # drop a xs) = unat (size_m this1)"
      using assms(5) len by (simp add: sz1 u1)
  next
    fix t assume "t < length (take a xs @ val # drop a xs)"
    with assms(5) have t: "t \<le> length xs"
      by simp
    from h1 have old: "\<And>k. k \<le> length xs \<Longrightarrow>
        slot w1 (ptr_add (data_m this1) (int k)) = Some (Some ((xs @ [val]) ! k))"
      by (simp add: holds_iff)
    consider "t < a" | "t = a" | "a < t"
      by linarith
    then show "slot w2 (ptr_add (data_m this1) (int t)) =
        Some (Some ((take a xs @ val # drop a xs) ! t))"
    proof cases
      case 1
      with t assms(5) old [of t] show ?thesis
        by (simp add: sl nth_append)
    next
      case 2
      with assms(5) old [of "length xs"] show ?thesis
        by (simp add: sl nth_append)
    next
      case 3
      then obtain k where k: "t = Suc k" "a \<le> k"
        by (cases t) auto
      with t have kl: "k < length xs"
        by simp
      from 3 t have "slot w2 (ptr_add (data_m this1) (int t)) =
          slot w1 (ptr_add (data_m this1) (int t - 1))"
        by (simp add: sl)
      also from k have "int t - 1 = int k"
        by simp
      also from kl old [of k] have "slot w1 (ptr_add (data_m this1) (int k)) = Some (Some (xs ! k))"
        by (simp add: nth_append)
      also from k kl assms(5) have "xs ! k = (take a xs @ val # drop a xs) ! t"
        by (simp add: nth_append)
      finally show ?thesis .
    qed
  qed
  with sz1 r ua show ?thesis
    by (simp add: this' w' size_vec_def uint_eq_int [THEN iffD2])
qed


theorem insert_success_witness:
  "holds \<lparr>data_m = Ptr 2 0, size_m = 4, capacity_m = 6\<rparr>
     (snd (snd (insert_vec (Ptr 1 1) 9 \<lparr>data_m = Ptr 1 0, size_m = 3, capacity_m = 3\<rparr>
        (one_block [Some 1, Some 2, Some (3::int)] (\<lambda>i. False) (\<lambda>i. False)))))
     [1, 9, 2, 3]"
proof -
  let ?v = "\<lparr>data_m = Ptr 1 0, size_m = 3, capacity_m = 3\<rparr>"
  let ?w = "one_block [Some 1, Some 2, Some (3::int)] (\<lambda>i. False) (\<lambda>i. False)"
  let ?run = "insert_vec (Ptr 1 1) 9 ?v ?w"
  have "fst ?run = Normal (Ptr 2 1)" "fst (snd ?run) = \<lparr>data_m = Ptr 2 0, size_m = 4, capacity_m = 6\<rparr>"
    by code_simp+
  then have run: "?run = (Normal (Ptr 2 1), \<lparr>data_m = Ptr 2 0, size_m = 4, capacity_m = 6\<rparr>, snd (snd ?run))"
    by (metis prod.collapse)
  have h: "holds ?v ?w [1, 2, 3]"
    by code_simp
  have ok: "heap_ok ?w"
    by (simp add: heap_ok_def one_block_def)
  have pos: "Ptr 1 1 = ptr_add (begin_vec ?v) (int 1)"
    by (simp add: begin_vec_def ptr_add_def)
  have "(1::nat) \<le> length [1, 2, 3::int]"
    by simp
  from insert_success [OF run h ok pos this] show ?thesis
    by simp
qed

subsection \<open>erase of one element\<close>

text \<open>
  The loop of \<open>erase\<close> started at \<open>i\<close> brings the element at \<open>i\<close> to the last slot and
  moves those after it down by one.
\<close>

lemma erase_loop_step:
  "i + 1 \<noteq> size_m this \<Longrightarrow> erase_loop i this w =
     (case std_swap (ptr_add (data_m this) (uint i)) (ptr_add (data_m this) (uint (i + 1))) w of
        (Normal u, w1) \<Rightarrow> erase_loop (i + 1) this w1
      | (Throw e, w1) \<Rightarrow> (Throw e, w1)
      | (Undefined, w1) \<Rightarrow> (Undefined, w1))"
  by (subst erase_loop.simps) simp

lemma erase_loop_stop: "i + 1 = size_m this \<Longrightarrow> erase_loop i this w = (Normal (), w)"
  by (subst erase_loop.simps) simp

lemma erase_loop_Normal:
  "erase_loop i this w = (Normal u, w') \<Longrightarrow> unat i < unat (size_m this) \<Longrightarrow>
     slot w' (ptr_add (data_m this) (int t)) =
       (if Suc t = unat (size_m this) then slot w (ptr_add (data_m this) (int (unat i)))
        else if unat i \<le> t \<and> Suc t < unat (size_m this) then slot w (ptr_add (data_m this) (int t + 1))
        else slot w (ptr_add (data_m this) (int t)))"
proof (induction i this w rule: erase_loop.induct)
  case (1 i this w)
  define n where "n = unat (size_m this)"
  define m where "m = unat i"
  from "1.prems"(2) have mn: "m < n"
    by (simp add: m_def n_def)
  have n64: "n < 2 ^ 64"
    using unsigned_less [of "size_m this", where 'a = nat] by (simp add: n_def)
  from mn have u: "unat (i + 1) = Suc m"
    unfolding m_def n_def by (metis unat_inc word_less_nat_alt)
  show ?case
  proof (cases "i + 1 = size_m this")
    case True
    with u have "n = Suc m"
      by (simp add: n_def)
    with True "1.prems"(1) show ?thesis
      by (auto simp: erase_loop_stop n_def [symmetric] m_def [symmetric])
  next
    case False
    obtain r1 w1 where s: "std_swap (ptr_add (data_m this) (uint i)) (ptr_add (data_m this) (uint (i + 1))) w = (r1, w1)"
      by (cases "std_swap (ptr_add (data_m this) (uint i)) (ptr_add (data_m this) (uint (i + 1))) w")
    with False "1.prems"(1) have r1: "r1 = Normal ()"
      and rest: "erase_loop (i + 1) this w1 = (Normal u, w')"
      by (cases r1; simp add: erase_loop_step)+
    from False have "unat (i + 1) \<noteq> unat (size_m this)"
      by (simp add: word_unat_eq_iff)
    with u mn have lt: "Suc m < n"
      by (simp add: n_def)
    then have lt': "unat (i + 1) < unat (size_m this)"
      by (simp add: u n_def)
    have ui: "uint i = int m"
      by (simp add: m_def)
    have ui1: "uint (i + 1) = int m + 1"
      using u by (simp add: uint_eq_int [THEN iffD2])
    note sw = std_swap_slot [OF s [unfolded r1 ui ui1]]
    from "1.IH" [OF False s [symmetric] r1 rest lt']
    have IH: "slot w' (ptr_add (data_m this) (int t)) =
       (if Suc t = n then slot w1 (ptr_add (data_m this) (int (Suc m)))
        else if Suc m \<le> t \<and> Suc t < n then slot w1 (ptr_add (data_m this) (int t + 1))
        else slot w1 (ptr_add (data_m this) (int t)))"
      by (simp only: u n_def)
    have eq: "t = m" if "\<not> Suc m \<le> t" "m \<le> t"
      using that by simp
    show ?thesis
      unfolding IH n_def [symmetric] m_def [symmetric] using lt
      by (auto simp: sw dest: eq)
  qed
qed

text \<open>
  \<open>erase\<close> at position \<open>a\<close> of a vector holding \<open>xs\<close> removes the element at index
  \<open>a\<close> and keeps the others in order; the length goes down by one and the capacity
  stays.
\<close>

theorem erase_success:
  assumes "erase pos this w = (Normal r, this', w')" and "holds this w xs"
    and "pos = ptr_add (begin_vec this) (int a)" and "a < length xs"
  shows "holds this' w' (take a xs @ drop (Suc a) xs) \<and> size_vec this' = size_vec this - 1 \<and>
         capacity this' = capacity this \<and> r = ptr_add pos 1"
proof -
  define ind :: size_t where "ind = word_of_int (int a)"
  have d: "ptr_diff pos (begin_vec this) = Some (int a)"
    by (simp add: assms(3) ptr_diff_def)
  have len: "length xs = unat (size_m this)"
    using assms(2) by (rule holds_size)
  have "a < 2 ^ 64"
    using assms(4) len unsigned_less [of "size_m this", where 'a = nat] by simp
  then have ua: "unat ind = a"
    by (simp add: ind_def unat_of_nat)
  obtain r1 w1 where l: "erase_loop ind this w = (r1, w1)"
    by (cases "erase_loop ind this w")
  from assms(1) d l have r1: "r1 = Normal ()"
    by (cases r1) (simp_all add: erase_def ind_def)
  obtain r2 this2 w2 where p: "pop_back this w1 = (r2, this2, w2)"
    by (cases "pop_back this w1")
  from assms(1) d l r1 p have r2: "r2 = Normal ()" and this': "this' = this2" and w': "w' = w2"
    and r: "r = ptr_add pos 1"
    by (cases r2; simp add: erase_def ind_def)+
  have lt: "unat ind < unat (size_m this)"
    using assms(4) len ua by simp
  note sl = erase_loop_Normal [OF l [unfolded r1] lt, unfolded ua len [symmetric]]
  have h1: "holds this w1 (take a xs @ drop (Suc a) xs @ [xs ! a])"
    unfolding holds_iff
  proof (intro conjI allI impI)
    show "length (take a xs @ drop (Suc a) xs @ [xs ! a]) = unat (size_m this)"
      using assms(4) len by simp
  next
    fix t assume "t < length (take a xs @ drop (Suc a) xs @ [xs ! a])"
    with assms(4) have t: "t < length xs"
      by simp
    from assms(2) have old: "\<And>k. k < length xs \<Longrightarrow>
        slot w (ptr_add (data_m this) (int k)) = Some (Some (xs ! k))"
      by (simp add: holds_iff)
    consider "Suc t = length xs" | "t < a" | "a \<le> t" "Suc t < length xs"
      using t by linarith
    then show "slot w1 (ptr_add (data_m this) (int t)) =
        Some (Some ((take a xs @ drop (Suc a) xs @ [xs ! a]) ! t))"
    proof cases
      case 1
      with assms(4) old [of a] show ?thesis
        by (auto simp: sl nth_append)
    next
      case 2
      with t assms(4) old [of t] show ?thesis
        by (simp add: sl nth_append)
    next
      case 3
      then have "slot w1 (ptr_add (data_m this) (int t)) =
          slot w (ptr_add (data_m this) (int t + 1))"
        by (simp add: sl)
      also have "int t + 1 = int (Suc t)"
        by simp
      also from 3 old [of "Suc t"] have "slot w (ptr_add (data_m this) (int (Suc t))) = Some (Some (xs ! Suc t))"
        by blast
      also from 3 have "t - a < length xs - Suc a"
        by linarith
      with 3 assms(4) have "xs ! Suc t = (take a xs @ drop (Suc a) xs @ [xs ! a]) ! t"
        by (simp add: nth_append)
      finally show ?thesis .
    qed
  qed
  have "take a xs @ drop (Suc a) xs @ [xs ! a] \<noteq> []"
    by simp
  from pop_back_Normal [OF p [unfolded r2] h1 this]
  have "this2 = this\<lparr>size_m := size_m this - 1\<rparr>"
    and "holds this2 w2 (butlast (take a xs @ drop (Suc a) xs @ [xs ! a]))"
    by blast+
  moreover have "butlast (take a xs @ drop (Suc a) xs @ [xs ! a]) = take a xs @ drop (Suc a) xs"
    by (simp add: butlast_append)
  ultimately show ?thesis
    using r by (simp add: this' w' size_vec_def capacity_def)
qed

theorem erase_success_witness:
  "holds \<lparr>data_m = Ptr 1 0, size_m = 3, capacity_m = 4\<rparr>
     (snd (snd (erase (Ptr 1 1) \<lparr>data_m = Ptr 1 0, size_m = 4, capacity_m = 4\<rparr>
        (one_block [Some 1, Some 2, Some 3, Some (4::int)] (\<lambda>i. False) (\<lambda>i. False)))))
     [1, 3, 4]"
proof -
  let ?v = "\<lparr>data_m = Ptr 1 0, size_m = 4, capacity_m = 4\<rparr>"
  let ?w = "one_block [Some 1, Some 2, Some 3, Some (4::int)] (\<lambda>i. False) (\<lambda>i. False)"
  let ?run = "erase (Ptr 1 1) ?v ?w"
  have "fst ?run = Normal (Ptr 1 2)" "fst (snd ?run) = \<lparr>data_m = Ptr 1 0, size_m = 3, capacity_m = 4\<rparr>"
    by code_simp+
  then have run: "?run = (Normal (Ptr 1 2), \<lparr>data_m = Ptr 1 0, size_m = 3, capacity_m = 4\<rparr>, snd (snd ?run))"
    by (metis prod.collapse)
  have h: "holds ?v ?w [1, 2, 3, 4]"
    by code_simp
  have pos: "Ptr 1 1 = ptr_add (begin_vec ?v) (int 1)"
    by (simp add: begin_vec_def ptr_add_def)
  have "(1::nat) < length [1, 2, 3, 4::int]"
    by simp
  from erase_success [OF run h pos this] show ?thesis
    by simp
qed

end
